theory Spec2Isabelle
  imports Complex_Main "HOL-Library.Word" "HOL-Library.Log_Nat" "HOL-Library.AList"
begin

section \<open>The shared state store (capture\_server.py)\<close>

subsection \<open>Values of the state tree\<close>

text \<open>
  The shared state is a tree of Python objects. \<open>POpaque t\<close> stands for any object that is
  neither a scalar nor a list, tuple or dict (a frame buffer, say); it carries the text
  \<open>str(type(value))\<close>, which is all the server ever reads of it. Dictionaries keep their
  insertion order, so they are association lists; the keys of the state are strings.
  Floats are modelled by reals (no NaN, no infinities). The state built in main.py shares
  no mutable object between two paths, so a tree, updated functionally, stands for the
  object graph that the server mutates in place.
\<close>

datatype pyval =
    PNone
  | PBool bool
  | PInt int
  | PFloat real
  | PStr string
  | PList "pyval list"
  | PTuple "pyval list"
  | PDict "(string \<times> pyval) list"
  | POpaque string

text \<open>
  \<open>abort(code, description)\<close> raises; the model returns the status code with the kind of
  failure. \<open>EmptySeparator\<close> is the ValueError of \<open>split\<close> on an empty separator.
\<close>

datatype failure =
    KeyMissing
  | BadIndex
  | IndexOutOfRange
  | NotContainer
  | EmptyPath
  | MissingArgument
  | NoSharedState
  | EmptySeparator


subsection \<open>sanitize\_value\<close>


subsection \<open>Strings: split, join, int\<close>




text \<open>
  \<open>int(s)\<close> on a string of ASCII characters: surrounding whitespace (space, tab, line
  feed, vertical tab, form feed, carriage return) is stripped, one sign is allowed, then
  decimal digits, where single underscores may stand between digits. Anything else raises
  ValueError (\<open>None\<close>), and so does a text of more than 4300 digits (the limit of Python
  3.11 on the conversion of a string to an integer; leading zeros count, underscores do
  not).
\<close>

definition is_space :: "char \<Rightarrow> bool" where
  "is_space c = (c \<in> set [CHR '' '', CHR 0x09, CHR 0x0A, CHR 0x0B, CHR 0x0C, CHR 0x0D])"

definition max_str_digits :: nat where
  "max_str_digits = 4300"

definition is_digit :: "char \<Rightarrow> bool" where
  "is_digit c = (48 \<le> (of_char c :: nat) \<and> (of_char c :: nat) \<le> 57)"

definition digit_val :: "char \<Rightarrow> nat" where
  "digit_val c = of_char c - 48"

definition py_strip :: "string \<Rightarrow> string" where
  "py_strip s = rev (dropWhile is_space (rev (dropWhile is_space s)))"

fun py_digits :: "nat \<Rightarrow> string \<Rightarrow> nat option" where
  "py_digits acc [] = Some acc"
| "py_digits acc (c # cs) =
     (if is_digit c then py_digits (10 * acc + digit_val c) cs
      else if c = CHR ''_'' then
        (case cs of
           [] \<Rightarrow> None
         | d # ds \<Rightarrow> if is_digit d then py_digits (10 * acc + digit_val d) ds else None)
      else None)"

definition py_nat :: "string \<Rightarrow> nat option" where
  "py_nat s =
     (if length (filter is_digit s) > max_str_digits then None
      else (case s of
              [] \<Rightarrow> None
            | c # cs \<Rightarrow> if is_digit c then py_digits (digit_val c) cs else None))"

definition py_int :: "string \<Rightarrow> int option" where
  "py_int s =
     (case py_strip s of
        [] \<Rightarrow> None
      | c # cs \<Rightarrow>
          if c = CHR ''-'' then map_option (\<lambda>n. - int n) (py_nat cs)
          else if c = CHR ''+'' then map_option int (py_nat cs)
          else map_option int (py_nat (c # cs)))"

text \<open>
  Which position \<open>xs[i]\<close> reads in a list or tuple of length \<open>n\<close>: \<open>i\<close> itself from 0
  up to \<open>n - 1\<close>, \<open>n + i\<close> for the negative indices down to \<open>-n\<close>; any other index is
  Python's IndexError (\<open>None\<close>).
\<close>

definition py_index :: "'a list \<Rightarrow> int \<Rightarrow> nat option" where
  "py_index xs i =
     (if 0 \<le> i \<and> i < int (length xs) then Some (nat i)
      else if i < 0 \<and> - int (length xs) \<le> i then Some (nat (int (length xs) + i))
      else None)"


subsection \<open>resolve\_path\<close>


text \<open>The loop of \<open>resolve_path\<close> over the segments; every \<open>abort\<close> in it has status 404.\<close>

fun resolve_parts :: "pyval \<Rightarrow> string list \<Rightarrow> failure + pyval" where
  "resolve_parts node [] = Inr node"
| "resolve_parts (PDict kvs) (part # rest) =
     (case map_of kvs part of
        None \<Rightarrow> Inl KeyMissing
      | Some child \<Rightarrow> resolve_parts child rest)"
| "resolve_parts (PList vs) (part # rest) =
     (case py_int part of
        None \<Rightarrow> Inl BadIndex
      | Some idx \<Rightarrow>
          (case py_index vs idx of
             None \<Rightarrow> Inl IndexOutOfRange
           | Some j \<Rightarrow> resolve_parts (vs ! j) rest))"
| "resolve_parts (PTuple vs) (part # rest) =
     (case py_int part of
        None \<Rightarrow> Inl BadIndex
      | Some idx \<Rightarrow>
          (case py_index vs idx of
             None \<Rightarrow> Inl IndexOutOfRange
           | Some j \<Rightarrow> resolve_parts (vs ! j) rest))"
| "resolve_parts _ (part # rest) = Inl NotContainer"


subsection \<open>get\_data\<close>


subsection \<open>set\_data\<close>



text \<open>
  The server mutates the node that \<open>resolve_path\<close> reached. In the tree model the same
  walk rebuilds the spine above that node: \<open>modify_at f node parts\<close> follows \<open>parts\<close> as
  \<open>resolve_parts\<close> does, applies \<open>f\<close> to the node reached and puts the result in its place.
\<close>

fun modify_at :: "(pyval \<Rightarrow> failure + pyval) \<Rightarrow> pyval \<Rightarrow> string list \<Rightarrow> failure + pyval" where
  "modify_at f node [] = f node"
| "modify_at f (PDict kvs) (part # rest) =
     (case map_of kvs part of
        None \<Rightarrow> Inl KeyMissing
      | Some child \<Rightarrow>
          (case modify_at f child rest of
             Inl e \<Rightarrow> Inl e
           | Inr child' \<Rightarrow> Inr (PDict (AList.update part child' kvs))))"
| "modify_at f (PList vs) (part # rest) =
     (case py_int part of
        None \<Rightarrow> Inl BadIndex
      | Some idx \<Rightarrow>
          (case py_index vs idx of
             None \<Rightarrow> Inl IndexOutOfRange
           | Some j \<Rightarrow>
               (case modify_at f (vs ! j) rest of
                  Inl e \<Rightarrow> Inl e
                | Inr child' \<Rightarrow> Inr (PList (vs[j := child'])))))"
| "modify_at f (PTuple vs) (part # rest) =
     (case py_int part of
        None \<Rightarrow> Inl BadIndex
      | Some idx \<Rightarrow>
          (case py_index vs idx of
             None \<Rightarrow> Inl IndexOutOfRange
           | Some j \<Rightarrow>
               (case modify_at f (vs ! j) rest of
                  Inl e \<Rightarrow> Inl e
                | Inr child' \<Rightarrow> Inr (PTuple (vs[j := child'])))))"
| "modify_at f _ (part # rest) = Inl NotContainer"


section \<open>The capture worker (main.py)\<close>

subsection \<open>The adaptive settling loop\<close>

text \<open>
  The three loop variables of the Smart Wait. Brightness values are floats in the
  source and reals here; the loop only compares them.
\<close>

record settle =
  has_changed :: bool
  stable_count :: nat
  prev_b :: real

definition settle_init :: settle where
  "settle_init = \<lparr>has_changed = False, stable_count = 0, prev_b = 0\<rparr>"

text \<open>The test of the first phase: \<open>abs(curr_b - safe_old)/safe_old > 0.15\<close>.\<close>

definition change_detected :: "real \<Rightarrow> real \<Rightarrow> bool" where
  "change_detected last_mean curr_b =
     (let safe_old = (if last_mean > 0.001 then last_mean else 0.001)
      in \<bar>curr_b - safe_old\<bar> / safe_old > 0.15)"

text \<open>
  One pass through the loop body after a frame of mean brightness \<open>curr_b\<close> was read:
  the state after it, and whether the body left the loop with \<open>break\<close>. The two checks
  are two \<open>if\<close> statements in sequence; \<open>prev_b = curr_b\<close> is skipped by the \<open>break\<close>.
\<close>

definition settle_iteration :: "real \<Rightarrow> real \<Rightarrow> settle \<Rightarrow> settle \<times> bool" where
  "settle_iteration last_mean curr_b s =
     (let s1 = (if \<not> has_changed s
                then (if change_detected last_mean curr_b
                      then s\<lparr>has_changed := True\<rparr> else s)
                else s)
      in if has_changed s1
         then (let s2 = (if \<bar>curr_b - prev_b s1\<bar> < 1.0
                         then s1\<lparr>stable_count := stable_count s1 + 1\<rparr>
                         else s1\<lparr>stable_count := 0\<rparr>)
               in if stable_count s2 \<ge> 3 then (s2, True)
                  else (s2\<lparr>prev_b := curr_b\<rparr>, False))
         else (s1\<lparr>prev_b := curr_b\<rparr>, False))"

text \<open>
  The loop. The camera and the clock are its environment: each pass first asks the clock
  (\<open>True\<close>: less than 2.0 s have passed) and then reads a frame (\<open>None\<close>: \<open>ret\<close> was false).
  The environment is the list of these answers, one entry per pass; when the list ends,
  the clock has run out. Frames are of any type \<open>'f\<close> with their mean brightness given by
  \<open>mean\<close>. The second component is the frame of \<open>latest_frame_data\<close>.
\<close>

fun settle_loop ::
  "('f \<Rightarrow> real) \<Rightarrow> real \<Rightarrow> (bool \<times> 'f option) list \<Rightarrow> settle \<times> 'f option
     \<Rightarrow> settle \<times> 'f option" where
  "settle_loop mean last_mean [] (s, latest) = (s, latest)"
| "settle_loop mean last_mean ((in_time, reading) # env) (s, latest) =
     (if \<not> in_time then (s, latest)
      else (case reading of
              None \<Rightarrow> (s, latest)
            | Some frame \<Rightarrow>
                (case settle_iteration last_mean (mean frame) s of
                   (s', True) \<Rightarrow> (s', Some frame)
                 | (s', False) \<Rightarrow> settle_loop mean last_mean env (s', Some frame))))"

subsection \<open>The fusion\_state mailbox\<close>

datatype fusion_state = IDLE | REQUESTED | PROCESSING | READY

text \<open>
  What the worker thread and the other threads share of one camera: the mailbox
  \<open>fusion_state\<close> and the two running flags (here one). \<open>in_bracket\<close> is the worker's
  position: between the assignment of PROCESSING and the assignment of READY.
  \<open>stopped\<close>: the worker has left its loop. \<open>brackets\<close> counts the brackets begun.
\<close>

record worker =
  fusion_state :: fusion_state
  is_running :: bool
  in_bracket :: bool
  stopped :: bool
  brackets :: nat

definition worker_init :: worker where
  "worker_init = \<lparr>fusion_state = IDLE, is_running = True, in_bracket = False,
                   stopped = False, brackets = 0\<rparr>"

text \<open>
  The threads interleave; reads and writes of the dict entry are atomic. \<open>Write v\<close> is
  another thread's assignment to \<open>fusion_state\<close> (the HTTP set or the controller),
  \<open>Stop\<close> clears a running flag, \<open>Worker\<close> is the worker's next move: inside a bracket
  it completes it and assigns READY, without looking at the mailbox; otherwise it tests
  the loop condition and then whether \<open>fusion_state == 'REQUESTED'\<close>. \<open>Raise\<close> is an
  exception in the loop body (in a bracket: from the camera, from \<open>np.mean\<close> or from
  \<open>fuse\<close>): the worker has no \<open>try\<close>, so the exception ends the thread where it is, and the
  mailbox keeps what it holds.
\<close>

datatype event = Worker | Raise | Write fusion_state | Stop

definition worker_step :: "worker \<Rightarrow> event \<Rightarrow> worker" where
  "worker_step s e =
     (case e of
        Write v \<Rightarrow> s\<lparr>fusion_state := v\<rparr>
      | Stop \<Rightarrow> s\<lparr>is_running := False\<rparr>
      | Raise \<Rightarrow> if stopped s then s else s\<lparr>in_bracket := False, stopped := True\<rparr>
      | Worker \<Rightarrow>
          if stopped s then s
          else if in_bracket s then s\<lparr>fusion_state := READY, in_bracket := False\<rparr>
          else if \<not> is_running s then s\<lparr>stopped := True\<rparr>
          else if fusion_state s = REQUESTED
          then s\<lparr>fusion_state := PROCESSING, in_bracket := True, brackets := brackets s + 1\<rparr>
          else s)"

text \<open>The states an execution passes through, the first one included.\<close>

fun execution :: "worker \<Rightarrow> event list \<Rightarrow> worker list" where
  "execution s [] = [s]"
| "execution s (e # es) = s # execution (worker_step s e) es"

section \<open>The exposure fusion engine (main.py)\<close>

subsection \<open>Images\<close>

text \<open>
  An array is the list of its rows, a row the list of its pixels, a pixel of a colour
  image the list of its channels. Byte images hold \<open>uint8\<close> values, which are 8-bit
  words. Float arrays hold reals: the model computes in exact arithmetic, so it says
  nothing about rounding, and it has no NaN and no infinity.
\<close>

type_synonym gray = "real list list"
type_synonym fimg = "real list list list"
type_synonym bgray = "8 word list list"
type_synonym bimg = "8 word list list list"

definition has_shape2 :: "nat \<Rightarrow> nat \<Rightarrow> 'a list list \<Rightarrow> bool" where
  "has_shape2 h w img = (length img = h \<and> list_all (\<lambda>row. length row = w) img)"

definition has_shape3 :: "nat \<Rightarrow> nat \<Rightarrow> nat \<Rightarrow> 'a list list list \<Rightarrow> bool" where
  "has_shape3 h w c img =
     (length img = h \<and>
      list_all (\<lambda>row. length row = w \<and> list_all (\<lambda>px. length px = c) row) img)"

text \<open>\<open>shape[0]\<close> and \<open>shape[1]\<close> of an array with at least one row.\<close>

definition height :: "'a list list \<Rightarrow> nat" where
  "height img = length img"

definition width :: "'a list list \<Rightarrow> nat" where
  "width img = (case img of [] \<Rightarrow> 0 | row # _ \<Rightarrow> length row)"

text \<open>
  Arithmetic between two arrays of one shape, element by element. (NumPy raises or
  broadcasts when the shapes differ; the engine applies these operations to arrays that
  come from the same image, and the one operation that meets arrays of different images
  first, \<open>np.sum\<close> below, checks the shapes.)
\<close>

definition ew2 :: "('a \<Rightarrow> 'b \<Rightarrow> 'c) \<Rightarrow> 'a list list \<Rightarrow> 'b list list \<Rightarrow> 'c list list" where
  "ew2 f a b = map2 (map2 f) a b"

definition ew3 ::
  "('a \<Rightarrow> 'b \<Rightarrow> 'c) \<Rightarrow> 'a list list list \<Rightarrow> 'b list list list \<Rightarrow> 'c list list list" where
  "ew3 f a b = map2 (map2 (map2 f)) a b"

datatype pyerr = ValueError | OverflowError | IndexError

subsection \<open>The OpenCV functions\<close>

text \<open>
  OpenCV is not part of the repository. The engine is modelled over any implementation
  of the functions it calls: \<open>pyrDown\<close> at the three array types it is applied to,
  \<open>pyrUp\<close> with its \<open>dstsize = (w, h)\<close>, \<open>Laplacian\<close> and the grey conversion.
\<close>

record cv2 =
  pyrDown_u8 :: "bimg \<Rightarrow> bimg"
  pyrDown_f :: "fimg \<Rightarrow> fimg"
  pyrDown_g :: "gray \<Rightarrow> gray"
  pyrUp :: "fimg \<Rightarrow> nat \<times> nat \<Rightarrow> fimg"
  Laplacian :: "gray \<Rightarrow> gray"
  cvtColor_BGR2GRAY :: "bimg \<Rightarrow> bgray"

text \<open>
  What OpenCV documents of the shapes: \<open>pyrDown\<close> of an array of \<open>h\<close> rows and \<open>w\<close> columns
  has \<open>(h + 1) / 2\<close> rows and \<open>(w + 1) / 2\<close> columns, \<open>pyrUp\<close> of such an array with
  \<open>dstsize = (w, h)\<close> has \<open>h\<close> rows and \<open>w\<close> columns, both keep the channels, and
  \<open>Laplacian\<close> and the grey conversion keep rows and columns.
\<close>

definition halve :: "nat \<Rightarrow> nat" where
  "halve n = (n + 1) div 2"

definition cv2_contract :: "cv2 \<Rightarrow> bool" where
  "cv2_contract cv =
     ((\<forall>img h w c. 0 < h \<and> 0 < w \<and> has_shape3 h w c img \<longrightarrow>
          has_shape3 (halve h) (halve w) c (pyrDown_u8 cv img)) \<and>
      (\<forall>img h w c. 0 < h \<and> 0 < w \<and> has_shape3 h w c img \<longrightarrow>
          has_shape3 (halve h) (halve w) c (pyrDown_f cv img)) \<and>
      (\<forall>img h w. 0 < h \<and> 0 < w \<and> has_shape2 h w img \<longrightarrow>
          has_shape2 (halve h) (halve w) (pyrDown_g cv img)) \<and>
      (\<forall>img h w c. 0 < h \<and> 0 < w \<and> has_shape3 (halve h) (halve w) c img \<longrightarrow>
          has_shape3 h w c (pyrUp cv img (w, h))) \<and>
      (\<forall>img h w. has_shape2 h w img \<longrightarrow> has_shape2 h w (Laplacian cv img)) \<and>
      (\<forall>img h w. has_shape3 h w 3 img \<longrightarrow> has_shape2 h w (cvtColor_BGR2GRAY cv img)))"

subsection \<open>Quality measures and weight maps\<close>

record engine =
  wc :: real
  ws :: real
  we :: real

text \<open>\<open>ExposureFusionEngine()\<close>: the three weights default to 1.0.\<close>

definition default_engine :: engine where
  "default_engine = \<lparr>wc = 1, ws = 1, we = 1\<rparr>"

text \<open>\<open>img / 255.0\<close> and \<open>img.astype(np.float64) / 255.0\<close> on bytes.\<close>

definition to_unit :: "8 word \<Rightarrow> real" where
  "to_unit b = real (unat b) / 255"

definition compute_contrast :: "cv2 \<Rightarrow> gray \<Rightarrow> gray" where
  "compute_contrast cv gray_img = map (map abs) (Laplacian cv gray_img)"

text \<open>\<open>np.std\<close> over the channels of one pixel: the population standard deviation.\<close>

definition np_std :: "real list \<Rightarrow> real" where
  "np_std xs =
     (let n = real (length xs); m = sum_list xs / n
      in sqrt (sum_list (map (\<lambda>x. \<bar>x - m\<bar>\<^sup>2) xs) / n))"

definition compute_saturation :: "fimg \<Rightarrow> gray" where
  "compute_saturation img = map (map np_std) img"

definition compute_exposedness :: "fimg \<Rightarrow> gray" where
  "compute_exposedness img =
     map (map (\<lambda>px. prod_list (map (\<lambda>x. exp (- 0.5 * (x - 0.5)\<^sup>2 / 0.2\<^sup>2)) px))) img"

text \<open>
  \<open>np.power\<close> on a base that is not negative: 1 for the exponent 0, also at base 0.
  (At base 0 with a negative exponent NumPy gives infinity, which the model does not
  have; the engine's weights are not negative.)
\<close>

definition np_power :: "real \<Rightarrow> real \<Rightarrow> real" where
  "np_power x y = (if y = 0 then 1 else x powr y)"

text \<open>The weight of one image before normalisation (the body of the first loop).\<close>

definition weight_of :: "cv2 \<Rightarrow> engine \<Rightarrow> bimg \<Rightarrow> gray" where
  "weight_of cv eng img =
     (let epsilon = 1 / 10 ^ 12;
          img_norm = map (map (map to_unit)) img;
          gray_img = map (map to_unit) (cvtColor_BGR2GRAY cv img);
          contrast = compute_contrast cv gray_img;
          saturation = compute_saturation img_norm;
          exposedness = compute_exposedness img_norm
      in ew2 (\<lambda>cs e. cs * np_power e (we eng) + epsilon)
           (ew2 (\<lambda>c s. np_power c (wc eng) * np_power s (ws eng)) contrast saturation)
           exposedness)"

text \<open>
  \<open>np.sum(weights, axis=0)\<close> on a list of arrays: NumPy (from 1.24) first makes one array
  of the list and raises ValueError when the arrays differ in shape. (The engine never
  sums the empty list: \<open>fuse\<close> has returned before.)
\<close>

definition np_sum_axis0 :: "gray list \<Rightarrow> pyerr + gray" where
  "np_sum_axis0 arrays =
     (case arrays of
        [] \<Rightarrow> Inr []
      | a # rest \<Rightarrow>
          if list_all (\<lambda>b. map length b = map length a) rest
          then Inr (foldl (ew2 (+)) a rest)
          else Inl ValueError)"

definition generate_weight_maps :: "cv2 \<Rightarrow> engine \<Rightarrow> bimg list \<Rightarrow> pyerr + gray list" where
  "generate_weight_maps cv eng images =
     (let weights = map (weight_of cv eng) images
      in case np_sum_axis0 weights of
           Inl e \<Rightarrow> Inl e
         | Inr sum_weights \<Rightarrow> Inr (map (\<lambda>w. ew2 (/) w sum_weights) weights))"

subsection \<open>Pyramids\<close>

text \<open>
  \<open>_gaussian_pyramid\<close>: the loop appends \<open>pyrDown\<close> of the last level \<open>levels - 1\<close> times;
  \<open>range\<close> of a number below 1 is empty.
\<close>

definition gaussian_pyramid :: "('a \<Rightarrow> 'a) \<Rightarrow> 'a \<Rightarrow> int \<Rightarrow> 'a list" where
  "gaussian_pyramid down img levels =
     ((\<lambda>pyr. pyr @ [down (last pyr)]) ^^ nat (levels - 1)) [img]"

text \<open>\<open>h, w = a.shape[:2]\<close>, passed on as \<open>dstsize=(w, h)\<close>.\<close>

definition dstsize :: "'a list list \<Rightarrow> nat \<times> nat" where
  "dstsize a = (width a, height a)"

definition laplacian_pyramid :: "cv2 \<Rightarrow> fimg \<Rightarrow> int \<Rightarrow> fimg list" where
  "laplacian_pyramid cv img levels =
     (let gauss_pyr = gaussian_pyramid (pyrDown_f cv) img levels
      in map (\<lambda>i. ew3 (-) (gauss_pyr ! i)
                     (pyrUp cv (gauss_pyr ! (i + 1)) (dstsize (gauss_pyr ! i))))
           [0..<nat (levels - 1)]
         @ [last gauss_pyr])"

text \<open>
  \<open>_reconstruct\<close>: from the last level upwards, \<open>img = pyrUp(img, dstsize) + pyramid[i]\<close>.
  \<open>pyramid[-1]\<close> of an empty list raises IndexError.
\<close>

definition reconstruct :: "cv2 \<Rightarrow> fimg list \<Rightarrow> pyerr + fimg" where
  "reconstruct cv pyramid =
     (if pyramid = [] then Inl IndexError
      else Inr (foldr (\<lambda>level img. ew3 (+) (pyrUp cv img (dstsize level)) level)
                  (butlast pyramid) (last pyramid)))"

subsection \<open>fuse\<close>

text \<open>
  \<open>int(np.log2(min_dim)) - 2\<close>. For \<open>min_dim > 0\<close> the integer part of the binary
  logarithm is \<open>floorlog 2 min_dim - 1\<close> (lemma \<open>num_levels_of_log\<close> below); \<open>np.log2(0)\<close>
  is minus infinity, whose conversion raises OverflowError.
\<close>

definition num_levels_of :: "nat \<Rightarrow> pyerr + int" where
  "num_levels_of min_dim =
     (if min_dim = 0 then Inl OverflowError
      else Inr (int (floorlog 2 min_dim) - 1 - 2))"

definition zeros_like :: "'a list list list \<Rightarrow> fimg" where
  "zeros_like img = map (map (map (\<lambda>_. 0))) img"

text \<open>
  \<open>cv2.cvtColor(w.astype(np.float32), cv2.COLOR_GRAY2BGR)\<close> repeats the one channel three
  times (the rounding to \<open>float32\<close> is not modelled).
\<close>

definition gray2bgr :: "gray \<Rightarrow> fimg" where
  "gray2bgr g = map (map (\<lambda>x. [x, x, x])) g"

text \<open>
  The body of the loop over the images: the Laplacian pyramid of the image and the
  Gaussian pyramid of its weight map are multiplied level by level and added to
  \<open>pyr_fusion\<close>, for the levels \<open>range(num_levels)\<close>.
\<close>

definition accumulate :: "cv2 \<Rightarrow> int \<Rightarrow> bimg \<Rightarrow> gray \<Rightarrow> fimg list \<Rightarrow> fimg list" where
  "accumulate cv num_levels img weight pyr_fusion =
     (let img_float = map (map (map to_unit)) img;
          pyr_img = laplacian_pyramid cv img_float num_levels;
          pyr_weight = gaussian_pyramid (pyrDown_g cv) weight num_levels
      in fold (\<lambda>level pf.
                 pf[level := ew3 (+) (pf ! level)
                               (ew3 (*) (gray2bgr (pyr_weight ! level)) (pyr_img ! level))])
           [0..<nat num_levels] pyr_fusion)"

text \<open>\<open>(np.clip(x, 0, 1) * 255).astype(np.uint8)\<close>: the cast cuts the fraction off.\<close>

definition to_byte :: "real \<Rightarrow> 8 word" where
  "to_byte x = word_of_int \<lfloor>min 1 (max 0 x) * 255\<rfloor>"

definition to_uint8 :: "fimg \<Rightarrow> bimg" where
  "to_uint8 img = map (map (map to_byte)) img"

text \<open>
  \<open>fuse\<close>: \<open>Inr None\<close> is the returned \<open>None\<close>, \<open>Inl\<close> an exception that leaves the function.
\<close>

definition fuse :: "cv2 \<Rightarrow> engine \<Rightarrow> bimg list \<Rightarrow> pyerr + bimg option" where
  "fuse cv eng images =
     (if images = [] then Inr None
      else
        (case generate_weight_maps cv eng images of
           Inl e \<Rightarrow> Inl e
         | Inr weights \<Rightarrow>
             (let min_dim = min (height (hd images)) (width (hd images))
              in case num_levels_of min_dim of
                   Inl e \<Rightarrow> Inl e
                 | Inr num_levels \<Rightarrow>
                     (let pyr_zero = map zeros_like
                            (gaussian_pyramid (pyrDown_u8 cv) (hd images) num_levels);
                          pyr_fusion =
                            fold (\<lambda>i pf. accumulate cv num_levels (images ! i) (weights ! i) pf)
                              [0..<length images] pyr_zero
                      in case reconstruct cv pyr_fusion of
                           Inl e \<Rightarrow> Inl e
                         | Inr img \<Rightarrow> Inr (Some (to_uint8 img))))))"

subsection \<open>Shapes of pyramids\<close>

text \<open>
  Level \<open>k\<close> of a pyramid over an image of \<open>h\<close> rows and \<open>w\<close> columns has the rows and
  columns halved \<open>k\<close> times. The predicate states the invariants of the loops of \<open>fuse\<close>.
\<close>

definition pyramid_shape :: "nat \<Rightarrow> nat \<Rightarrow> nat \<Rightarrow> 'a list list list list \<Rightarrow> bool" where
  "pyramid_shape h w c pyr =
     (\<forall>k<length pyr. has_shape3 ((halve ^^ k) h) ((halve ^^ k) w) c (pyr ! k))"

subsection \<open>One implementation of the OpenCV functions\<close>

text \<open>
  To evaluate the engine on concrete images the functions need an implementation. This
  one keeps every second row and column in \<open>pyrDown\<close>, repeats pixels in \<open>pyrUp\<close>, takes the
  four-neighbour Laplacian with mirrored borders and the fixed-point grey conversion. It
  satisfies \<open>cv2_contract\<close>; it does not blur, so its pixel values are not OpenCV's.
\<close>

fun evens :: "'a list \<Rightarrow> 'a list" where
  "evens [] = []"
| "evens [x] = [x]"
| "evens (x # y # xs) = x # evens xs"

definition decimate :: "'a list list \<Rightarrow> 'a list list" where
  "decimate img = map evens (evens img)"

definition repeat_up :: "fimg \<Rightarrow> nat \<times> nat \<Rightarrow> fimg" where
  "repeat_up img dst =
     map (\<lambda>y. map (\<lambda>x. img ! (y div 2) ! (x div 2)) [0..<fst dst]) [0..<snd dst]"

definition mirror :: "nat \<Rightarrow> int \<Rightarrow> nat" where
  "mirror n i =
     (if n \<le> 1 then 0
      else if i < 0 then nat (- i)
      else if int n \<le> i then nat (2 * int n - 2 - i)
      else nat i)"

definition laplace4 :: "gray \<Rightarrow> gray" where
  "laplace4 g =
     (let h = height g; w = width g;
          px = (\<lambda>y x. g ! mirror h y ! mirror w x)
      in map (\<lambda>y. map (\<lambda>x. px (int y - 1) (int x) + px (int y + 1) (int x)
                            + px (int y) (int x - 1) + px (int y) (int x + 1)
                            - 4 * px (int y) (int x))
                     [0..<w])
           [0..<h])"

definition bgr2gray :: "bimg \<Rightarrow> bgray" where
  "bgr2gray img =
     map (map (\<lambda>px. case px of
                       [b, g, r] \<Rightarrow>
                         word_of_nat ((unat b * 1868 + unat g * 9617 + unat r * 4899 + 8192)
                                       div 16384)
                     | _ \<Rightarrow> 0)) img"

definition cv2_plain :: cv2 where
  "cv2_plain = \<lparr>pyrDown_u8 = decimate, pyrDown_f = decimate, pyrDown_g = decimate,
                 pyrUp = repeat_up, Laplacian = laplace4, cvtColor_BGR2GRAY = bgr2gray\<rparr>"

section \<open>Properties\<close>


subsection \<open>The state store\<close>










lemma modify_at_fail:
  "resolve_parts node ps = Inl e \<Longrightarrow> modify_at f node ps = Inl e"
  by (induction node ps rule: resolve_parts.induct) (auto split: option.splits)













subsection \<open>The settling loop\<close>

text \<open>
  Claim C7, as amended. In every pass of the settling loop the change test runs only
  while \<open>has_changed\<close> is false, and the stability check (the update of the stable
  counter and the test for leaving the loop) runs in every pass in which \<open>has_changed\<close>
  is true when the check is reached: in the passes after the change was detected and also
  in the pass that detects it, where the frame is compared with \<open>prev_b\<close> of the pass
  before (0 in the first pass).
\<close>

theorem settle_phases:
  "has_changed (fst (settle_iteration last_mean curr_b s)) =
     (has_changed s \<or> change_detected last_mean curr_b) \<and>
   stable_count (fst (settle_iteration last_mean curr_b s)) =
     (if has_changed s \<or> change_detected last_mean curr_b
      then (if \<bar>curr_b - prev_b s\<bar> < 1 then stable_count s + 1 else 0)
      else stable_count s) \<and>
   snd (settle_iteration last_mean curr_b s) =
     ((has_changed s \<or> change_detected last_mean curr_b) \<and>
      3 \<le> (if \<bar>curr_b - prev_b s\<bar> < 1 then stable_count s + 1 else 0))"
  by (simp add: settle_iteration_def Let_def)

text \<open>The theorem at \<open>last_mean = 100\<close>, a first frame of mean 0.5 and the initial state.\<close>

theorem settle_phases_witness:
  "has_changed (fst (settle_iteration 100 0.5 settle_init)) \<and>
   stable_count (fst (settle_iteration 100 0.5 settle_init)) = 1 \<and>
   \<not> snd (settle_iteration 100 0.5 settle_init)"
  using settle_phases[of 100 "0.5" settle_init]
  by (simp add: change_detected_def settle_init_def)

text \<open>
  Claim C7 as stated fails in the pass that detects the change. With \<open>last_mean = 100\<close>
  and a dark first frame (mean 0.5) the first pass sets \<open>has_changed\<close> and counts the frame
  as stable in the same pass; with two more frames of means 0.6 and 0.7 the loop is left
  in its third pass, where a loop with the two phases apart would have counted two.
\<close>

theorem settle_phases_counterexample:
  "\<not> has_changed settle_init \<and>
   settle_iteration 100 0.5 settle_init =
     (\<lparr>has_changed = True, stable_count = 1, prev_b = 0.5\<rparr>, False) \<and>
   settle_loop (\<lambda>b. b) 100 [(True, Some 0.5), (True, Some 0.6), (True, Some 0.7)]
       (settle_init, None) =
     (\<lparr>has_changed = True, stable_count = 3, prev_b = 0.6\<rparr>, Some 0.7)"
  by (simp add: settle_iteration_def change_detected_def settle_init_def Let_def)

subsection \<open>The mailbox\<close>

lemma stopped_forever:
  "stopped s \<Longrightarrow> \<forall>t\<in>set (execution s es). stopped t \<and> brackets t = brackets s"
proof (induction es arbitrary: s)
  case Nil
  then show ?case by simp
next
  case (Cons e es)
  have "stopped (worker_step s e)" "brackets (worker_step s e) = brackets s"
    using Cons.prems by (cases e; simp add: worker_step_def)+
  then show ?case using Cons.IH[of "worker_step s e"] Cons.prems by simp
qed

text \<open>
  Claim C8, as amended. The worker begins a bracket exactly when it polls the mailbox
  and reads REQUESTED, whatever the mailbox held before. So a REQUESTED written while the
  worker is not inside a bracket (the mailbox may hold READY) starts a new bracket at the
  worker's next poll, with no return to IDLE in between. A REQUESTED written while the
  worker is inside a bracket (PROCESSING) starts none: when the bracket completes, the
  request is overwritten by READY; when the bracket ends with an exception, the worker
  thread ends, the mailbox keeps REQUESTED, and no bracket begins any more.
\<close>

theorem request_pickup:
  "(\<not> stopped s \<and> \<not> in_bracket s \<and> is_running s \<longrightarrow>
      fusion_state (worker_step (worker_step s (Write REQUESTED)) Worker) = PROCESSING \<and>
      brackets (worker_step (worker_step s (Write REQUESTED)) Worker) = brackets s + 1) \<and>
   (\<not> stopped s \<and> in_bracket s \<longrightarrow>
      fusion_state (worker_step (worker_step s (Write REQUESTED)) Worker) = READY \<and>
      brackets (worker_step (worker_step s (Write REQUESTED)) Worker) = brackets s) \<and>
   (\<not> stopped s \<and> in_bracket s \<longrightarrow>
      fusion_state (worker_step (worker_step s (Write REQUESTED)) Raise) = REQUESTED \<and>
      (\<forall>t\<in>set (execution (worker_step (worker_step s (Write REQUESTED)) Raise) es).
          stopped t \<and> brackets t = brackets s)) \<and>
   (brackets (worker_step s e) = brackets s + 1 \<longleftrightarrow>
      e = Worker \<and> \<not> stopped s \<and> \<not> in_bracket s \<and> is_running s \<and>
      fusion_state s = REQUESTED)"
proof -
  have third: "\<not> stopped s \<and> in_bracket s \<longrightarrow>
      fusion_state (worker_step (worker_step s (Write REQUESTED)) Raise) = REQUESTED \<and>
      (\<forall>t\<in>set (execution (worker_step (worker_step s (Write REQUESTED)) Raise) es).
          stopped t \<and> brackets t = brackets s)"
  proof (intro impI)
    assume a: "\<not> stopped s \<and> in_bracket s"
    let ?s = "worker_step (worker_step s (Write REQUESTED)) Raise"
    have st: "stopped ?s" and br: "brackets ?s = brackets s"
      and fs: "fusion_state ?s = REQUESTED"
      using a by (simp_all add: worker_step_def)
    show "fusion_state ?s = REQUESTED \<and>
          (\<forall>t\<in>set (execution ?s es). stopped t \<and> brackets t = brackets s)"
      using stopped_forever[OF st, of es] br fs by simp
  qed
  have fourth: "brackets (worker_step s e) = brackets s + 1 \<longleftrightarrow>
      e = Worker \<and> \<not> stopped s \<and> \<not> in_bracket s \<and> is_running s \<and>
      fusion_state s = REQUESTED"
    by (cases e) (simp_all add: worker_step_def)
  show ?thesis
    using third fourth by (simp add: worker_step_def)
qed

text \<open>
  The theorem at a worker whose mailbox holds READY, and at a worker inside a bracket
  that completes or raises.
\<close>

theorem request_pickup_witness:
  "fusion_state (worker_step (worker_step (worker_init\<lparr>fusion_state := READY\<rparr>)
      (Write REQUESTED)) Worker) = PROCESSING \<and>
   brackets (worker_step (worker_step (worker_init\<lparr>fusion_state := READY\<rparr>)
      (Write REQUESTED)) Worker) = 1 \<and>
   fusion_state (worker_step (worker_step
      (worker_init\<lparr>fusion_state := PROCESSING, in_bracket := True, brackets := 1\<rparr>)
      (Write REQUESTED)) Worker) = READY \<and>
   brackets (worker_step (worker_step
      (worker_init\<lparr>fusion_state := PROCESSING, in_bracket := True, brackets := 1\<rparr>)
      (Write REQUESTED)) Worker) = 1 \<and>
   fusion_state (worker_step (worker_step
      (worker_init\<lparr>fusion_state := PROCESSING, in_bracket := True, brackets := 1\<rparr>)
      (Write REQUESTED)) Raise) = REQUESTED \<and>
   list_all (\<lambda>t. stopped t \<and> brackets t = 1)
     (execution (worker_step (worker_step
        (worker_init\<lparr>fusion_state := PROCESSING, in_bracket := True, brackets := 1\<rparr>)
        (Write REQUESTED)) Raise) [Worker, Write IDLE, Write REQUESTED, Worker])"
  using request_pickup[of "worker_init\<lparr>fusion_state := READY\<rparr>" "[]" Worker]
    request_pickup[of "worker_init\<lparr>fusion_state := PROCESSING, in_bracket := True,
                                   brackets := 1\<rparr>"
      "[Worker, Write IDLE, Write REQUESTED, Worker]" Worker]
  by (simp add: worker_init_def list_all_iff)

text \<open>
  Claim C8 as stated fails for a request written over READY. In this execution the
  controller requests a fusion, the worker runs the bracket and answers READY, the
  controller writes REQUESTED again, and the worker's next poll begins the second
  bracket: the mailbox never held IDLE after the first request.
\<close>

theorem request_pickup_counterexample:
  "map fusion_state
     (execution worker_init [Write REQUESTED, Worker, Worker, Write REQUESTED, Worker]) =
     [IDLE, REQUESTED, PROCESSING, READY, REQUESTED, PROCESSING] \<and>
   map brackets
     (execution worker_init [Write REQUESTED, Worker, Worker, Write REQUESTED, Worker]) =
     [0, 0, 1, 1, 1, 2]"
  by (simp add: worker_step_def worker_init_def)

subsection \<open>The fusion engine\<close>

lemma has_shape2_nth:
  "has_shape2 h w img \<longleftrightarrow> length img = h \<and> (\<forall>i<h. length (img ! i) = w)"
  by (auto simp: has_shape2_def list_all_length)

lemma has_shape3_nth:
  "has_shape3 h w c img \<longleftrightarrow>
     length img = h \<and> (\<forall>i<h. length (img ! i) = w \<and> (\<forall>j<w. length (img ! i ! j) = c))"
  by (auto simp: has_shape3_def list_all_length)

lemma ew2_shape:
  "has_shape2 h w a \<Longrightarrow> has_shape2 h w b \<Longrightarrow> has_shape2 h w (ew2 f a b)"
  by (simp add: has_shape2_nth ew2_def)

lemma ew2_nth:
  "has_shape2 h w a \<Longrightarrow> has_shape2 h w b \<Longrightarrow> i < h \<Longrightarrow> j < w \<Longrightarrow>
   ew2 f a b ! i ! j = f (a ! i ! j) (b ! i ! j)"
  by (simp add: has_shape2_nth ew2_def)

lemma ew3_shape:
  "has_shape3 h w c a \<Longrightarrow> has_shape3 h w c b \<Longrightarrow> has_shape3 h w c (ew3 f a b)"
  by (simp add: has_shape3_nth ew3_def)

lemma ew3_nth:
  "has_shape3 h w c a \<Longrightarrow> has_shape3 h w c b \<Longrightarrow> i < h \<Longrightarrow> j < w \<Longrightarrow> k < c \<Longrightarrow>
   ew3 f a b ! i ! j ! k = f (a ! i ! j ! k) (b ! i ! j ! k)"
  by (simp add: has_shape3_nth ew3_def)

lemma shape3_eqI:
  assumes "has_shape3 h w c a" "has_shape3 h w c b"
    and "\<And>i j k. i < h \<Longrightarrow> j < w \<Longrightarrow> k < c \<Longrightarrow> a ! i ! j ! k = b ! i ! j ! k"
  shows "a = b"
proof (rule nth_equalityI)
  show "length a = length b" using assms(1,2) by (simp add: has_shape3_nth)
next
  fix i assume i: "i < length a"
  then have ih: "i < h" using assms(1) by (simp add: has_shape3_nth)
  show "a ! i = b ! i"
  proof (rule nth_equalityI)
    show "length (a ! i) = length (b ! i)" using assms(1,2) ih by (simp add: has_shape3_nth)
  next
    fix j assume "j < length (a ! i)"
    then have jw: "j < w" using assms(1) ih by (simp add: has_shape3_nth)
    show "a ! i ! j = b ! i ! j"
    proof (rule nth_equalityI)
      show "length (a ! i ! j) = length (b ! i ! j)"
        using assms(1,2) ih jw by (simp add: has_shape3_nth)
    next
      fix k assume "k < length (a ! i ! j)"
      then have "k < c" using assms(1) ih jw by (simp add: has_shape3_nth)
      then show "a ! i ! j ! k = b ! i ! j ! k" using assms(3) ih jw by blast
    qed
  qed
qed

lemma ew3_add_sub:
  fixes g u :: fimg
  assumes "has_shape3 h w c g" "has_shape3 h w c u"
  shows "ew3 (+) u (ew3 (-) g u) = g"
proof (rule shape3_eqI[of h w c])
  show "has_shape3 h w c (ew3 (+) u (ew3 (-) g u))"
    using assms by (simp add: ew3_shape)
  show "has_shape3 h w c g" by fact
  fix i j k assume "i < h" "j < w" "k < c"
  then show "ew3 (+) u (ew3 (-) g u) ! i ! j ! k = g ! i ! j ! k"
    using assms by (simp add: ew3_nth ew3_shape)
qed

lemma dstsize_shape3: "has_shape3 h w c img \<Longrightarrow> 0 < h \<Longrightarrow> dstsize img = (w, h)"
  by (cases img) (auto simp: dstsize_def width_def height_def has_shape3_def)

lemma dstsize_shape2: "has_shape2 h w img \<Longrightarrow> 0 < h \<Longrightarrow> dstsize img = (w, h)"
  by (cases img) (auto simp: dstsize_def width_def height_def has_shape2_def)

lemma halve_pos: "0 < n \<Longrightarrow> 0 < halve n"
  by (simp add: halve_def)

lemma halve_pow_pos: "0 < n \<Longrightarrow> 0 < (halve ^^ k) n"
  by (induction k) (simp_all add: halve_pos)

lemma gaussian_pyramid_levels:
  "gaussian_pyramid down img levels = map (\<lambda>k. (down ^^ k) img) [0..<Suc (nat (levels - 1))]"
proof -
  have "((\<lambda>pyr. pyr @ [down (last pyr)]) ^^ n) [img] = map (\<lambda>k. (down ^^ k) img) [0..<Suc n]" for n
  proof (induction n)
    case 0
    then show ?case by simp
  next
    case (Suc n)
    have "last (map (\<lambda>k. (down ^^ k) img) [0..<Suc n]) = (down ^^ n) img"
      by simp
    then show ?case using Suc by simp
  qed
  then show ?thesis by (simp add: gaussian_pyramid_def)
qed

lemma pyrDown_f_pow_shape:
  "cv2_contract cv \<Longrightarrow> has_shape3 h w c img \<Longrightarrow> 0 < h \<Longrightarrow> 0 < w \<Longrightarrow>
   has_shape3 ((halve ^^ k) h) ((halve ^^ k) w) c ((pyrDown_f cv ^^ k) img)"
proof (induction k)
  case 0
  then show ?case by simp
next
  case (Suc k)
  then have "has_shape3 ((halve ^^ k) h) ((halve ^^ k) w) c ((pyrDown_f cv ^^ k) img)"
    by simp
  moreover have "0 < (halve ^^ k) h" "0 < (halve ^^ k) w"
    using Suc.prems by (simp_all add: halve_pow_pos)
  ultimately show ?case
    using Suc.prems(1) by (simp add: cv2_contract_def)
qed

lemma laplacian_pyramid_levels:
  "laplacian_pyramid cv img levels =
     map (\<lambda>i. ew3 (-) ((pyrDown_f cv ^^ i) img)
                 (pyrUp cv ((pyrDown_f cv ^^ Suc i) img) (dstsize ((pyrDown_f cv ^^ i) img))))
       [0..<nat (levels - 1)]
     @ [(pyrDown_f cv ^^ nat (levels - 1)) img]"
proof -
  define n where "n = nat (levels - 1)"
  define G where "G = map (\<lambda>k. (pyrDown_f cv ^^ k) img) [0..<Suc n]"
  have l: "last G = (pyrDown_f cv ^^ n) img"
    by (simp add: G_def)
  have nth: "G ! i = (pyrDown_f cv ^^ i) img" if "i \<le> n" for i
    using that unfolding G_def by (subst nth_map_upt) auto
  have "map (\<lambda>i. ew3 (-) (G ! i) (pyrUp cv (G ! (i + 1)) (dstsize (G ! i)))) [0..<n] =
        map (\<lambda>i. ew3 (-) ((pyrDown_f cv ^^ i) img)
                 (pyrUp cv ((pyrDown_f cv ^^ Suc i) img) (dstsize ((pyrDown_f cv ^^ i) img))))
          [0..<n]"
    by (rule map_cong) (auto simp: nth simp del: funpow.simps)
  then show ?thesis
    using l by (simp add: laplacian_pyramid_def gaussian_pyramid_levels Let_def
        n_def[symmetric] G_def[symmetric] del: upt_Suc funpow.simps)
qed


lemma contract_down_f:
  "cv2_contract cv \<Longrightarrow> has_shape3 h w c img \<Longrightarrow> 0 < h \<Longrightarrow> 0 < w \<Longrightarrow>
   has_shape3 (halve h) (halve w) c (pyrDown_f cv img)"
  by (simp add: cv2_contract_def)

lemma contract_up:
  "cv2_contract cv \<Longrightarrow> has_shape3 (halve h) (halve w) c img \<Longrightarrow> 0 < h \<Longrightarrow> 0 < w \<Longrightarrow>
   has_shape3 h w c (pyrUp cv img (w, h))"
  by (simp add: cv2_contract_def)

lemma collapse_levels:
  assumes "cv2_contract cv"
  shows "has_shape3 h w c img \<Longrightarrow> 0 < h \<Longrightarrow> 0 < w \<Longrightarrow>
     foldr (\<lambda>level acc. ew3 (+) (pyrUp cv acc (dstsize level)) level)
       (map (\<lambda>i. ew3 (-) ((pyrDown_f cv ^^ i) img)
                 (pyrUp cv ((pyrDown_f cv ^^ Suc i) img) (dstsize ((pyrDown_f cv ^^ i) img))))
          [0..<n])
       ((pyrDown_f cv ^^ n) img) = img"
proof (induction n arbitrary: img h w)
  case 0
  then show ?case by simp
next
  case (Suc n)
  let ?d = "pyrDown_f cv img"
  let ?u = "pyrUp cv ?d (w, h)"
  have ds: "dstsize img = (w, h)"
    using Suc.prems by (simp add: dstsize_shape3)
  have d: "has_shape3 (halve h) (halve w) c ?d"
    using assms Suc.prems by (rule contract_down_f)
  have u: "has_shape3 h w c ?u"
    using assms d Suc.prems(2,3) by (rule contract_up)
  have l0: "has_shape3 h w c (ew3 (-) img ?u)"
    using Suc.prems(1) u by (rule ew3_shape)
  have ds0: "dstsize (ew3 (-) img ?u) = (w, h)"
    using l0 Suc.prems(2) by (rule dstsize_shape3)
  have IH: "foldr (\<lambda>level acc. ew3 (+) (pyrUp cv acc (dstsize level)) level)
       (map (\<lambda>i. ew3 (-) ((pyrDown_f cv ^^ i) ?d)
                 (pyrUp cv ((pyrDown_f cv ^^ Suc i) ?d) (dstsize ((pyrDown_f cv ^^ i) ?d))))
          [0..<n])
       ((pyrDown_f cv ^^ n) ?d) = ?d"
    using Suc.IH[OF d] Suc.prems(2,3) by (simp add: halve_pos)
  have "foldr (\<lambda>level acc. ew3 (+) (pyrUp cv acc (dstsize level)) level)
       (map (\<lambda>i. ew3 (-) ((pyrDown_f cv ^^ i) img)
                 (pyrUp cv ((pyrDown_f cv ^^ Suc i) img) (dstsize ((pyrDown_f cv ^^ i) img))))
          [0..<Suc n])
       ((pyrDown_f cv ^^ Suc n) img) = ew3 (+) ?u (ew3 (-) img ?u)"
    using IH ds ds0
    by (simp add: map_upt_Suc funpow_swap1 del: upt_Suc)
  then show ?case
    using ew3_add_sub[OF Suc.prems(1) u] by simp
qed

text \<open>
  Claim C4. For every float image \<open>img\<close> with at least one row and one column and every
  depth \<open>levels\<close>, reconstructing the Laplacian pyramid of \<open>img\<close> gives \<open>img\<close> again. In the
  exact arithmetic of the model the two images are equal, so the error is 0, within the
  bound of the claim; what rounding adds in the floating-point arithmetic of the source is
  outside the model. The OpenCV functions are any that satisfy \<open>cv2_contract\<close>.
\<close>

theorem laplacian_roundtrip:
  assumes "cv2_contract cv" and "has_shape3 h w c img" and "0 < h" and "0 < w"
  shows "reconstruct cv (laplacian_pyramid cv img levels) = Inr img"
  using collapse_levels[OF assms, of "nat (levels - 1)"]
  by (simp add: reconstruct_def laplacian_pyramid_levels del: upt_Suc funpow.simps)


lemma map2_shape2: "has_shape2 h w a \<Longrightarrow> has_shape2 h w (map (map f) a)"
  by (simp add: has_shape2_nth)

lemma map3_shape2: "has_shape3 h w c a \<Longrightarrow> has_shape2 h w (map (map f) a)"
  by (simp add: has_shape2_nth has_shape3_nth)

lemma map3_shape3: "has_shape3 h w c a \<Longrightarrow> has_shape3 h w c (map (map (map f)) a)"
  by (simp add: has_shape3_nth)

lemma shape2_lengths: "has_shape2 h w a \<Longrightarrow> map length a = replicate h w"
  by (rule nth_equalityI) (simp_all add: has_shape2_nth)

lemma np_power_nonneg: "0 \<le> np_power x y"
  by (simp add: np_power_def)

lemma weight_of_shape:
  assumes "cv2_contract cv" and "has_shape3 h w 3 img"
  shows "has_shape2 h w (weight_of cv eng img)"
proof -
  have g: "has_shape2 h w (cvtColor_BGR2GRAY cv img)"
    using assms by (simp add: cv2_contract_def)
  have c: "has_shape2 h w (compute_contrast cv (map (map to_unit) (cvtColor_BGR2GRAY cv img)))"
    using assms(1) map2_shape2[OF g, of to_unit]
    by (simp add: compute_contrast_def cv2_contract_def map2_shape2)
  have s: "has_shape2 h w (compute_saturation (map (map (map to_unit)) img))"
    using assms(2) by (simp add: compute_saturation_def map3_shape2 map3_shape3)
  have e: "has_shape2 h w (compute_exposedness (map (map (map to_unit)) img))"
    using assms(2) by (simp add: compute_exposedness_def map3_shape2 map3_shape3)
  show ?thesis
    using c s e by (simp add: weight_of_def Let_def ew2_shape)
qed

lemma weight_of_pos:
  assumes "cv2_contract cv" and "has_shape3 h w 3 img" and "i < h" and "j < w"
  shows "0 < weight_of cv eng img ! i ! j"
proof -
  have g: "has_shape2 h w (cvtColor_BGR2GRAY cv img)"
    using assms by (simp add: cv2_contract_def)
  have c: "has_shape2 h w (compute_contrast cv (map (map to_unit) (cvtColor_BGR2GRAY cv img)))"
    using assms(1) map2_shape2[OF g, of to_unit]
    by (simp add: compute_contrast_def cv2_contract_def map2_shape2)
  have s: "has_shape2 h w (compute_saturation (map (map (map to_unit)) img))"
    using assms(2) by (simp add: compute_saturation_def map3_shape2 map3_shape3)
  have e: "has_shape2 h w (compute_exposedness (map (map (map to_unit)) img))"
    using assms(2) by (simp add: compute_exposedness_def map3_shape2 map3_shape3)
  have cs: "has_shape2 h w (ew2 (\<lambda>c s. np_power c (wc eng) * np_power s (ws eng))
      (compute_contrast cv (map (map to_unit) (cvtColor_BGR2GRAY cv img)))
      (compute_saturation (map (map (map to_unit)) img)))"
    using c s by (rule ew2_shape)
  have "0 \<le> a * b * d" if "0 \<le> a" "0 \<le> b" "0 \<le> d" for a b d :: real
    using that by simp
  then show ?thesis
    using assms(3,4)
    by (simp add: weight_of_def Let_def ew2_nth[OF cs e] ew2_nth[OF c s]
        np_power_nonneg add_nonneg_pos)
qed

lemma foldl_ew2_sum:
  fixes a :: gray
  shows "has_shape2 h w a \<Longrightarrow> \<forall>b\<in>set rest. has_shape2 h w b \<Longrightarrow>
     has_shape2 h w (foldl (ew2 (+)) a rest) \<and>
     (\<forall>i<h. \<forall>j<w. foldl (ew2 (+)) a rest ! i ! j = a ! i ! j + (\<Sum>b\<leftarrow>rest. b ! i ! j))"
proof (induction rest arbitrary: a)
  case Nil
  then show ?case by simp
next
  case (Cons b rest)
  have b: "has_shape2 h w b" using Cons.prems by simp
  have ab: "has_shape2 h w (ew2 (+) a b)"
    using Cons.prems(1) b by (rule ew2_shape)
  have "\<forall>b\<in>set rest. has_shape2 h w b" using Cons.prems by simp
  from Cons.IH[OF ab this] show ?case
    using Cons.prems(1) b by (simp add: ew2_nth add.assoc)
qed

lemma np_sum_axis0_shape:
  fixes arrays :: "gray list"
  assumes "arrays \<noteq> []" and "\<forall>a\<in>set arrays. has_shape2 h w a"
  shows "\<exists>total. np_sum_axis0 arrays = Inr total \<and> has_shape2 h w total \<and>
           (\<forall>i<h. \<forall>j<w. total ! i ! j = (\<Sum>a\<leftarrow>arrays. a ! i ! j))"
proof -
  obtain a rest where ar: "arrays = a # rest"
    using assms(1) by (cases arrays) auto
  have a: "has_shape2 h w a" and rest: "\<forall>b\<in>set rest. has_shape2 h w b"
    using assms(2) ar by simp_all
  have "list_all (\<lambda>b. map length b = map length a) rest"
    using a rest by (simp add: list_all_iff shape2_lengths)
  then have "np_sum_axis0 arrays = Inr (foldl (ew2 (+)) a rest)"
    by (simp add: np_sum_axis0_def ar)
  then show ?thesis
    using foldl_ew2_sum[OF a rest] ar by simp
qed

lemma sum_list_pos_real:
  fixes f :: "'a \<Rightarrow> real"
  shows "xs \<noteq> [] \<Longrightarrow> \<forall>a\<in>set xs. 0 < f a \<Longrightarrow> 0 < (\<Sum>a\<leftarrow>xs. f a)"
proof (induction xs)
  case Nil
  then show ?case by simp
next
  case (Cons a xs)
  then show ?case by (cases "xs = []") (simp_all add: add_pos_pos)
qed

lemma weight_maps_normalised:
  assumes "cv2_contract cv" and "images \<noteq> []" and "\<forall>img\<in>set images. has_shape3 h w 3 img"
  shows "\<exists>maps. generate_weight_maps cv eng images = Inr maps \<and>
           length maps = length images \<and>
           (\<forall>m\<in>set maps. has_shape2 h w m) \<and>
           (\<forall>y<h. \<forall>x<w. (\<Sum>m\<leftarrow>maps. m ! y ! x) = 1)"
proof -
  let ?ws = "map (weight_of cv eng) images"
  have sh: "\<forall>a\<in>set ?ws. has_shape2 h w a"
    using assms(1,3) by (simp add: weight_of_shape)
  have ne: "?ws \<noteq> []" using assms(2) by simp
  obtain total where t: "np_sum_axis0 ?ws = Inr total" and ts: "has_shape2 h w total"
    and tn: "\<forall>i<h. \<forall>j<w. total ! i ! j = (\<Sum>a\<leftarrow>?ws. a ! i ! j)"
    using np_sum_axis0_shape[OF ne sh] by blast
  let ?maps = "map (\<lambda>wm. ew2 (/) wm total) ?ws"
  have g: "generate_weight_maps cv eng images = Inr ?maps"
    using t by (simp add: generate_weight_maps_def Let_def)
  have ms: "\<forall>m\<in>set ?maps. has_shape2 h w m"
    using sh ts by (auto intro: ew2_shape)
  have one: "(\<Sum>m\<leftarrow>?maps. m ! y ! x) = 1" if "y < h" "x < w" for y x
  proof -
    have pos: "0 < a ! y ! x" if "a \<in> set ?ws" for a
      using that assms(1,3) \<open>y < h\<close> \<open>x < w\<close> by (auto intro: weight_of_pos)
    have "0 < (\<Sum>a\<leftarrow>?ws. a ! y ! x)"
      using ne pos by (intro sum_list_pos_real) auto
    then have tp: "total ! y ! x \<noteq> 0"
      using tn that by simp
    have eq: "map (\<lambda>m. m ! y ! x) ?maps = map (\<lambda>a. a ! y ! x / total ! y ! x) ?ws"
      using sh ts that by (auto simp: ew2_nth)
    have "(\<Sum>m\<leftarrow>?maps. m ! y ! x) = (\<Sum>a\<leftarrow>?ws. a ! y ! x / total ! y ! x)"
      by (simp only: eq)
    also have "\<dots> = (\<Sum>a\<leftarrow>?ws. a ! y ! x) / total ! y ! x"
      by (simp only: divide_inverse sum_list_mult_const)
    also have "\<dots> = 1"
      using tn that tp by simp
    finally show ?thesis .
  qed
  show ?thesis
    using g ms one by (intro exI[of _ ?maps]) simp
qed


lemma pyramid_shape_Cons:
  "pyramid_shape h w c (p # ps) \<longleftrightarrow>
     has_shape3 h w c p \<and> pyramid_shape (halve h) (halve w) c ps"
proof
  assume a: "pyramid_shape h w c (p # ps)"
  have "has_shape3 h w c p"
    using a by (auto simp: pyramid_shape_def)
  moreover have "has_shape3 ((halve ^^ k) (halve h)) ((halve ^^ k) (halve w)) c (ps ! k)"
    if "k < length ps" for k
    using a that by (auto simp: pyramid_shape_def funpow_swap1 dest: spec[of _ "Suc k"])
  ultimately show "has_shape3 h w c p \<and> pyramid_shape (halve h) (halve w) c ps"
    by (simp add: pyramid_shape_def)
next
  assume a: "has_shape3 h w c p \<and> pyramid_shape (halve h) (halve w) c ps"
  show "pyramid_shape h w c (p # ps)"
    unfolding pyramid_shape_def
  proof (intro allI impI)
    fix k assume "k < length (p # ps)"
    then show "has_shape3 ((halve ^^ k) h) ((halve ^^ k) w) c ((p # ps) ! k)"
      using a by (cases k) (auto simp: pyramid_shape_def funpow_swap1)
  qed
qed

lemma pyrDown_u8_pow_shape:
  "cv2_contract cv \<Longrightarrow> has_shape3 h w c img \<Longrightarrow> 0 < h \<Longrightarrow> 0 < w \<Longrightarrow>
   has_shape3 ((halve ^^ k) h) ((halve ^^ k) w) c ((pyrDown_u8 cv ^^ k) img)"
proof (induction k)
  case 0
  then show ?case by simp
next
  case (Suc k)
  then have "has_shape3 ((halve ^^ k) h) ((halve ^^ k) w) c ((pyrDown_u8 cv ^^ k) img)"
    by simp
  moreover have "0 < (halve ^^ k) h" "0 < (halve ^^ k) w"
    using Suc.prems by (simp_all add: halve_pow_pos)
  ultimately show ?case
    using Suc.prems(1) by (simp add: cv2_contract_def)
qed

lemma pyrDown_g_pow_shape:
  "cv2_contract cv \<Longrightarrow> has_shape2 h w img \<Longrightarrow> 0 < h \<Longrightarrow> 0 < w \<Longrightarrow>
   has_shape2 ((halve ^^ k) h) ((halve ^^ k) w) ((pyrDown_g cv ^^ k) img)"
proof (induction k)
  case 0
  then show ?case by simp
next
  case (Suc k)
  then have "has_shape2 ((halve ^^ k) h) ((halve ^^ k) w) ((pyrDown_g cv ^^ k) img)"
    by simp
  moreover have "0 < (halve ^^ k) h" "0 < (halve ^^ k) w"
    using Suc.prems by (simp_all add: halve_pow_pos)
  ultimately show ?case
    using Suc.prems(1) by (simp add: cv2_contract_def)
qed

lemma gaussian_pyramid_length:
  "length (gaussian_pyramid down img levels) = Suc (nat (levels - 1))"
  by (simp add: gaussian_pyramid_levels del: upt_Suc)

lemma gaussian_pyramid_nth:
  "k \<le> nat (levels - 1) \<Longrightarrow> gaussian_pyramid down img levels ! k = (down ^^ k) img"
  unfolding gaussian_pyramid_levels by (subst nth_map_upt) auto

lemma laplacian_pyramid_length:
  "length (laplacian_pyramid cv img levels) = Suc (nat (levels - 1))"
  by (simp add: laplacian_pyramid_levels del: upt_Suc funpow.simps)

lemma laplacian_pyramid_shape:
  assumes "cv2_contract cv" and "has_shape3 h w c img" and "0 < h" and "0 < w"
  shows "pyramid_shape h w c (laplacian_pyramid cv img levels)"
  unfolding pyramid_shape_def
proof (intro allI impI)
  fix k assume "k < length (laplacian_pyramid cv img levels)"
  then have k: "k \<le> nat (levels - 1)"
    by (simp add: laplacian_pyramid_length)
  let ?G = "\<lambda>i. (pyrDown_f cv ^^ i) img"
  have g: "has_shape3 ((halve ^^ i) h) ((halve ^^ i) w) c (?G i)" for i
    using assms by (rule pyrDown_f_pow_shape)
  have hp: "0 < (halve ^^ i) h" "0 < (halve ^^ i) w" for i
    using assms(3,4) by (simp_all add: halve_pow_pos)
  show "has_shape3 ((halve ^^ k) h) ((halve ^^ k) w) c (laplacian_pyramid cv img levels ! k)"
  proof (cases "k = nat (levels - 1)")
    case True
    then show ?thesis
      using g[of k] by (simp add: laplacian_pyramid_levels nth_append del: upt_Suc funpow.simps)
  next
    case False
    then have lt: "k < nat (levels - 1)" using k by simp
    have ds: "dstsize (?G k) = ((halve ^^ k) w, (halve ^^ k) h)"
      using g[of k] hp(1)[of k] by (rule dstsize_shape3)
    have "has_shape3 (halve ((halve ^^ k) h)) (halve ((halve ^^ k) w)) c (?G (Suc k))"
      using g[of "Suc k"] by simp
    then have u: "has_shape3 ((halve ^^ k) h) ((halve ^^ k) w) c
                    (pyrUp cv (?G (Suc k)) ((halve ^^ k) w, (halve ^^ k) h))"
      using assms(1) hp[of k] by (intro contract_up)
    have "laplacian_pyramid cv img levels ! k =
            ew3 (-) (?G k) (pyrUp cv (?G (Suc k)) (dstsize (?G k)))"
      using lt by (simp add: laplacian_pyramid_levels nth_append del: upt_Suc funpow.simps)
    then show ?thesis
      using g[of k] u ds by (simp add: ew3_shape del: funpow.simps)
  qed
qed

lemma reconstruct_shape:
  assumes "cv2_contract cv"
  shows "pyr \<noteq> [] \<Longrightarrow> pyramid_shape h w c pyr \<Longrightarrow> 0 < h \<Longrightarrow> 0 < w \<Longrightarrow>
         \<exists>r. reconstruct cv pyr = Inr r \<and> has_shape3 h w c r"
proof (induction pyr arbitrary: h w)
  case Nil
  then show ?case by simp
next
  case (Cons p ps)
  have p: "has_shape3 h w c p" and ps: "pyramid_shape (halve h) (halve w) c ps"
    using Cons.prems(2) by (simp_all add: pyramid_shape_Cons)
  show ?case
  proof (cases "ps = []")
    case True
    then show ?thesis using p by (simp add: reconstruct_def)
  next
    case False
    obtain r where r: "reconstruct cv ps = Inr r" and rs: "has_shape3 (halve h) (halve w) c r"
      using Cons.IH[OF False ps] Cons.prems(3,4) by (auto simp: halve_pos)
    have ds: "dstsize p = (w, h)"
      using p Cons.prems(3) by (rule dstsize_shape3)
    have u: "has_shape3 h w c (pyrUp cv r (w, h))"
      using assms rs Cons.prems(3,4) by (rule contract_up)
    have "reconstruct cv (p # ps) = Inr (ew3 (+) (pyrUp cv r (dstsize p)) p)"
      using r False by (simp add: reconstruct_def)
    then show ?thesis
      using u p ds by (simp add: ew3_shape)
  qed
qed


text \<open>
  Claim C3. For every bracket that is not empty, of 3-channel byte images of one shape,
  and every engine whose three weights are not negative, the normalised weight maps sum
  to 1 at every pixel position. In the exact arithmetic of the model the sum is 1, which
  is within the bound of the claim; what rounding adds in the floating-point arithmetic of
  the source is outside the model.
\<close>

theorem weights_sum_to_one:
  assumes cv: "cv2_contract cv" and ne: "images \<noteq> []"
    and sh: "\<forall>img\<in>set images. has_shape3 h w 3 img"
    and eng: "0 \<le> wc eng" "0 \<le> ws eng" "0 \<le> we eng"
  shows "\<exists>maps. generate_weight_maps cv eng images = Inr maps \<and>
           length maps = length images \<and>
           (\<forall>m\<in>set maps. has_shape2 h w m) \<and>
           (\<forall>y<h. \<forall>x<w. (\<Sum>m\<leftarrow>maps. m ! y ! x) = 1)"
  using weight_maps_normalised[OF cv ne sh] .

lemma fold_invariant:
  "P s \<Longrightarrow> (\<And>x s. x \<in> set xs \<Longrightarrow> P s \<Longrightarrow> P (f x s)) \<Longrightarrow> P (fold f xs s)"
  by (induction xs arbitrary: s) auto

lemma gray2bgr_shape: "has_shape2 h w g \<Longrightarrow> has_shape3 h w 3 (gray2bgr g)"
  by (simp add: has_shape2_nth has_shape3_nth gray2bgr_def)

lemma pyramid_shape_update:
  "pyramid_shape h w c pyr \<Longrightarrow> has_shape3 ((halve ^^ k) h) ((halve ^^ k) w) c v \<Longrightarrow>
   pyramid_shape h w c (pyr[k := v])"
  by (cases "k < length pyr") (auto simp: pyramid_shape_def nth_list_update)

lemma accumulate_shape:
  assumes cv: "cv2_contract cv" and img: "has_shape3 h w 3 img" and wt: "has_shape2 h w weight"
    and pos: "0 < h" "0 < w"
    and len: "length pf = Suc (nat (levels - 1))" and pf: "pyramid_shape h w 3 pf"
  shows "length (accumulate cv levels img weight pf) = Suc (nat (levels - 1)) \<and>
         pyramid_shape h w 3 (accumulate cv levels img weight pf)"
proof -
  let ?pi = "laplacian_pyramid cv (map (map (map to_unit)) img) levels"
  let ?pw = "gaussian_pyramid (pyrDown_g cv) weight levels"
  let ?step = "\<lambda>level pf. pf[level := ew3 (+) (pf ! level)
                               (ew3 (*) (gray2bgr (?pw ! level)) (?pi ! level))]"
  let ?P = "\<lambda>pf :: fimg list. length pf = Suc (nat (levels - 1)) \<and> pyramid_shape h w 3 pf"
  have fl: "has_shape3 h w 3 (map (map (map to_unit)) img)"
    using img by (rule map3_shape3)
  have pis: "pyramid_shape h w 3 ?pi"
    using cv fl pos by (rule laplacian_pyramid_shape)
  have step: "?P (?step level q)" if "level \<in> set [0..<nat levels]" and q: "?P q" for level q
  proof -
    have lv: "level \<le> nat (levels - 1)" using that(1) by auto
    then have lq: "level < length q" using q by simp
    have a: "has_shape3 ((halve ^^ level) h) ((halve ^^ level) w) 3 (q ! level)"
      using q lq by (simp add: pyramid_shape_def)
    have b: "has_shape3 ((halve ^^ level) h) ((halve ^^ level) w) 3 (?pi ! level)"
      using pis lv by (simp add: pyramid_shape_def laplacian_pyramid_length)
    have "has_shape2 ((halve ^^ level) h) ((halve ^^ level) w) (?pw ! level)"
      using pyrDown_g_pow_shape[OF cv wt pos, of level] lv by (simp add: gaussian_pyramid_nth)
    then have c: "has_shape3 ((halve ^^ level) h) ((halve ^^ level) w) 3 (gray2bgr (?pw ! level))"
      by (rule gray2bgr_shape)
    have "has_shape3 ((halve ^^ level) h) ((halve ^^ level) w) 3
            (ew3 (+) (q ! level) (ew3 (*) (gray2bgr (?pw ! level)) (?pi ! level)))"
      using a b c by (intro ew3_shape)
    then show ?thesis
      using q by (simp add: pyramid_shape_update)
  qed
  have "?P (fold ?step [0..<nat levels] pf)"
    by (rule fold_invariant[where P = ?P]) (use len pf step in auto)
  then show ?thesis
    by (simp add: accumulate_def Let_def)
qed

lemma to_byte_range: "unat (to_byte x) \<le> 255"
proof -
  have "unat (to_byte x) < 2 ^ LENGTH(8)" by (rule unsigned_less)
  then show ?thesis by simp
qed

lemma to_byte_exact: "uint (to_byte x) = \<lfloor>min 1 (max 0 x) * 255\<rfloor>"
proof -
  have "0 \<le> min 1 (max 0 x) * 255" "min 1 (max 0 x) * 255 \<le> 255"
    by (simp_all add: min_def max_def)
  then have "0 \<le> \<lfloor>min 1 (max 0 x) * 255\<rfloor>" "\<lfloor>min 1 (max 0 x) * 255\<rfloor> < 256"
    by (simp_all add: floor_less_iff)
  then show ?thesis
    by (simp add: to_byte_def uint_word_of_int take_bit_eq_mod)
qed

lemma fuse_result:
  assumes cv: "cv2_contract cv" and ne: "images \<noteq> []"
    and sh: "\<forall>img\<in>set images. has_shape3 h w 3 img" and pos: "0 < h" "0 < w"
  shows "\<exists>r. fuse cv eng images = Inr (Some (to_uint8 r)) \<and> has_shape3 h w 3 r"
proof -
  obtain maps where g: "generate_weight_maps cv eng images = Inr maps"
    and lm: "length maps = length images" and ms: "\<forall>m\<in>set maps. has_shape2 h w m"
    using weight_maps_normalised[OF cv ne sh] by blast
  have h0: "has_shape3 h w 3 (hd images)" using ne sh by simp
  have dims: "height (hd images) = h" "width (hd images) = w"
    using dstsize_shape3[OF h0 pos(1)] by (simp_all add: dstsize_def)
  define L where "L = int (floorlog 2 (min h w)) - 1 - 2"
  have nl: "num_levels_of (min h w) = Inr L"
    using pos by (simp add: num_levels_of_def L_def)
  let ?zero = "map zeros_like (gaussian_pyramid (pyrDown_u8 cv) (hd images) L)"
  let ?P = "\<lambda>pf :: fimg list. length pf = Suc (nat (L - 1)) \<and> pyramid_shape h w 3 pf"
  have "has_shape3 ((halve ^^ k) h) ((halve ^^ k) w) 3 (?zero ! k)" if "k \<le> nat (L - 1)" for k
    using pyrDown_u8_pow_shape[OF cv h0 pos, of k] that
    by (simp add: gaussian_pyramid_length gaussian_pyramid_nth zeros_like_def map3_shape3)
  then have z: "?P ?zero"
    by (simp add: pyramid_shape_def gaussian_pyramid_length)
  let ?fusion = "fold (\<lambda>i pf. accumulate cv L (images ! i) (maps ! i) pf) [0..<length images] ?zero"
  have f: "?P ?fusion"
  proof (rule fold_invariant[where P = ?P])
    show "?P ?zero" by (rule z)
  next
    fix i q assume i: "i \<in> set [0..<length images]" and q: "?P q"
    have "has_shape3 h w 3 (images ! i)" using sh i by simp
    moreover have "has_shape2 h w (maps ! i)" using ms lm i by simp
    ultimately show "?P (accumulate cv L (images ! i) (maps ! i) q)"
      using accumulate_shape[OF cv _ _ pos] q by blast
  qed
  then have "?fusion \<noteq> []" by auto
  then obtain r where r: "reconstruct cv ?fusion = Inr r" and rs: "has_shape3 h w 3 r"
    using reconstruct_shape[OF cv _ _ pos] f by blast
  have "fuse cv eng images = Inr (Some (to_uint8 r))"
    using ne g nl r by (simp add: fuse_def dims Let_def)
  then show ?thesis using rs by blast
qed

text \<open>
  Claim C1. For every bracket that is not empty, of 3-channel byte images of one shape
  (\<open>h\<close> rows, \<open>w\<close> columns, both positive), and every engine whose three weights are not
  negative, \<open>fuse\<close> returns an image, of the same height, width and channel count, of
  bytes (the type of \<open>out\<close>), every value between 0 and 255.
\<close>

theorem fuse_shape_and_range:
  assumes cv: "cv2_contract cv" and ne: "images \<noteq> []"
    and sh: "\<forall>img\<in>set images. has_shape3 h w 3 img" and pos: "0 < h" "0 < w"
    and eng: "0 \<le> wc eng" "0 \<le> ws eng" "0 \<le> we eng"
  shows "\<exists>out. fuse cv eng images = Inr (Some out) \<and> has_shape3 h w 3 out \<and>
           (\<forall>row\<in>set out. \<forall>px\<in>set row. \<forall>v\<in>set px. unat v \<le> 255)"
proof -
  obtain r where r: "fuse cv eng images = Inr (Some (to_uint8 r))" and rs: "has_shape3 h w 3 r"
    using fuse_result[OF cv ne sh pos] by blast
  have "has_shape3 h w 3 (to_uint8 r)"
    using rs by (simp add: to_uint8_def map3_shape3)
  moreover have "\<forall>row\<in>set (to_uint8 r). \<forall>px\<in>set row. \<forall>v\<in>set px. unat v \<le> 255"
    by (auto simp: to_uint8_def to_byte_range)
  ultimately show ?thesis using r by blast
qed

lemma num_levels_of_log:
  "0 < m \<Longrightarrow> num_levels_of m = Inr (\<lfloor>log 2 (real m)\<rfloor> - 2)"
  by (simp add: num_levels_of_def floorlog_def)

lemma fuse_none_iff: "fuse cv eng images = Inr None \<longleftrightarrow> images = []"
  by (auto simp: fuse_def Let_def split: sum.splits)

lemma replicate_eq_iff2:
  assumes "0 < h" "0 < h'"
  shows "replicate h (w::nat) = replicate h' w' \<longleftrightarrow> h = h' \<and> w = w'"
  using assms by auto

lemma fuse_mixed_shapes:
  assumes cv: "cv2_contract cv"
    and each: "\<forall>img\<in>set images. \<exists>h w. 0 < h \<and> 0 < w \<and> has_shape3 h w 3 img"
    and mixed: "\<not> (\<exists>h w. \<forall>img\<in>set images. has_shape3 h w 3 img)"
  shows "fuse cv eng images = Inl ValueError"
proof -
  have ne: "images \<noteq> []" using mixed by auto
  then obtain a rest where ar: "images = a # rest" by (cases images) auto
  obtain h w where a: "has_shape3 h w 3 a" and hp: "0 < h"
    using each ar by auto
  obtain b where b: "b \<in> set rest" and nb: "\<not> has_shape3 h w 3 b"
    using mixed a ar by auto
  obtain h' w' where b': "has_shape3 h' w' 3 b" and hp': "0 < h'"
    using each ar b by auto
  have ne': "\<not> (h = h' \<and> w = w')" using nb b' by auto
  have "map length (weight_of cv eng a) = replicate h w"
       "map length (weight_of cv eng b) = replicate h' w'"
    using cv a b' by (simp_all add: weight_of_shape shape2_lengths)
  then have "map length (weight_of cv eng b) \<noteq> map length (weight_of cv eng a)"
    using ne' hp hp' replicate_eq_iff2[of h' h w' w] by auto
  then have "\<not> list_all (\<lambda>v. map length v = map length (weight_of cv eng a))
               (map (weight_of cv eng) rest)"
    using b by (auto simp: list_all_iff)
  then have "generate_weight_maps cv eng images = Inl ValueError"
    by (simp add: generate_weight_maps_def np_sum_axis0_def ar Let_def)
  then show ?thesis
    using ne by (simp add: fuse_def)
qed

lemma evens_length: "length (evens xs) = halve (length xs)"
  by (induction xs rule: evens.induct) (simp_all add: halve_def)

lemma evens_subset: "x \<in> set (evens xs) \<Longrightarrow> x \<in> set xs"
  by (induction xs rule: evens.induct) auto

lemma decimate_shape3:
  assumes "has_shape3 h w c img"
  shows "has_shape3 (halve h) (halve w) c (decimate img)"
proof -
  have len: "length img = h"
    and rows: "\<And>row. row \<in> set img \<Longrightarrow> length row = w"
    and pxs: "\<And>row px. row \<in> set img \<Longrightarrow> px \<in> set row \<Longrightarrow> length px = c"
    using assms by (auto simp: has_shape3_def list_all_iff)
  have "length (evens row) = halve w \<and> (\<forall>px\<in>set (evens row). length px = c)"
    if "row \<in> set (evens img)" for row
  proof -
    have r: "row \<in> set img" using that by (rule evens_subset)
    show ?thesis
      using rows[OF r] pxs[OF r] by (auto simp: evens_length dest: evens_subset)
  qed
  then show ?thesis
    using len by (simp add: has_shape3_def decimate_def evens_length list_all_iff)
qed

lemma decimate_shape2:
  assumes "has_shape2 h w img"
  shows "has_shape2 (halve h) (halve w) (decimate img)"
proof -
  have len: "length img = h"
    and rows: "\<And>row. row \<in> set img \<Longrightarrow> length row = w"
    using assms by (auto simp: has_shape2_def list_all_iff)
  have "length (evens row) = halve w" if "row \<in> set (evens img)" for row
    using rows[OF evens_subset[OF that]] by (simp add: evens_length)
  then show ?thesis
    using len by (simp add: has_shape2_def decimate_def evens_length list_all_iff)
qed

lemma repeat_up_shape:
  assumes "has_shape3 (halve h) (halve w) c img"
  shows "has_shape3 h w c (repeat_up img (w, h))"
proof -
  have "y div 2 < halve h" if "y < h" for y
    using that by (simp add: halve_def)
  moreover have "x div 2 < halve w" if "x < w" for x
    using that by (simp add: halve_def)
  ultimately show ?thesis
    using assms by (simp add: has_shape3_nth repeat_up_def)
qed

lemma laplace4_shape: "has_shape2 h w g \<Longrightarrow> has_shape2 h w (laplace4 g)"
  by (cases g) (auto simp: has_shape2_nth laplace4_def Let_def height_def width_def)

lemma bgr2gray_shape: "has_shape3 h w c img \<Longrightarrow> has_shape2 h w (bgr2gray img)"
  by (simp add: bgr2gray_def map3_shape2)

lemma cv2_plain_contract: "cv2_contract cv2_plain"
  unfolding cv2_contract_def cv2_plain_def
  by (simp add: decimate_shape3 decimate_shape2 repeat_up_shape laplace4_shape bgr2gray_shape)

lemma to_byte_zero: "to_byte 0 = 0"
  by (simp add: to_byte_def)

lemma fuse_small_image:
  assumes sh: "has_shape3 h w 3 img" and pos: "0 < h" "0 < w" and small: "min h w < 8"
  shows "fuse cv eng [img] = Inr (Some (map (map (map (\<lambda>_. 0))) img))"
proof -
  have g: "generate_weight_maps cv eng [img] =
             Inr [ew2 (/) (weight_of cv eng img) (weight_of cv eng img)]"
    by (simp add: generate_weight_maps_def np_sum_axis0_def Let_def)
  have dims: "height img = h" "width img = w"
    using dstsize_shape3[OF sh pos(1)] by (simp_all add: dstsize_def)
  have "min h w < 2 ^ 3" using small by simp
  then have "floorlog 2 (min h w) \<le> 3"
    by (simp add: floorlog_le_iff)
  then obtain L where nl: "num_levels_of (min h w) = Inr L" and L: "L \<le> 0"
    using pos by (simp add: num_levels_of_def)
  have n: "nat (L - 1) = 0" "nat L = 0" using L by simp_all
  have gp: "gaussian_pyramid (pyrDown_u8 cv) img L = [img]"
    by (simp add: gaussian_pyramid_def n)
  have acc: "accumulate cv L a b pf = pf" for a b pf
    by (simp add: accumulate_def Let_def n)
  have "fuse cv eng [img] = Inr (Some (to_uint8 (zeros_like img)))"
    by (simp add: fuse_def g dims nl gp acc reconstruct_def)
  moreover have "to_uint8 (zeros_like img) = map (map (map (\<lambda>_. 0))) img"
    by (simp add: to_uint8_def zeros_like_def to_byte_zero o_def)
  ultimately show ?thesis by simp
qed

text \<open>
  Claim C2 fails on the code. \<open>fuse\<close> takes \<open>int(np.log2(min_dim)) - 2\<close> as it is: for a
  smallest dimension below 8 the depth is 0 or negative, here at 4, 7 and 1; from 8 on it
  is at least 1.
\<close>

theorem depth_below_one:
  "num_levels_of 4 = Inr 0 \<and> num_levels_of 7 = Inr 0 \<and> num_levels_of 1 = Inr (- 2) \<and>
   num_levels_of 8 = Inr 1"
  by (simp add: num_levels_of_def compute_floorlog)

text \<open>
  Claim C5 fails on the code for images with a side shorter than 8. The depth is then
  below 1, the pyramids still have one level, but the loop over \<open>range(num_levels)\<close> adds
  nothing to it: \<open>fuse\<close> of the single 4 by 4 image of value 100 is the image of zeros,
  whatever the OpenCV functions and the weights of the engine are.
\<close>

theorem single_small_image_black:
  "fuse cv eng [replicate 4 (replicate 4 [100, 100, 100])] =
     Inr (Some (replicate 4 (replicate 4 [0, 0, 0])))"
proof -
  have "has_shape3 4 4 3 (replicate 4 (replicate 4 [100, 100, 100 :: 8 word]))"
    by (simp add: has_shape3_def list_all_iff)
  from fuse_small_image[OF this, of cv eng] show ?thesis
    by (simp add: numeral_eq_Suc)
qed

text \<open>
  The theorem of claim C1 at a bracket of two 8 by 8 images.
\<close>

theorem fuse_shape_and_range_witness:
  "\<exists>out. fuse cv2_plain default_engine
            [replicate 8 (replicate 8 [10, 20, 30]), replicate 8 (replicate 8 [200, 210, 220])]
            = Inr (Some out) \<and>
         has_shape3 8 8 3 out \<and>
         (\<forall>row\<in>set out. \<forall>px\<in>set row. \<forall>v\<in>set px. unat v \<le> 255)"
proof -
  let ?images = "[replicate 8 (replicate 8 [10, 20, 30 :: 8 word]),
                  replicate 8 (replicate 8 [200, 210, 220])]"
  have ne: "?images \<noteq> []" by simp
  have sh: "\<forall>img\<in>set ?images. has_shape3 8 8 3 img"
    by (simp add: has_shape3_def list_all_iff)
  show ?thesis
    using fuse_shape_and_range[OF cv2_plain_contract ne sh, of default_engine]
    by (simp add: default_engine_def)
qed

text \<open>
  The theorem of claim C3 at a bracket of two 8 by 8 images.
\<close>

theorem weights_sum_to_one_witness:
  "\<exists>maps. generate_weight_maps cv2_plain default_engine
             [replicate 8 (replicate 8 [10, 20, 30]), replicate 8 (replicate 8 [200, 210, 220])]
             = Inr maps \<and>
          length maps = 2 \<and>
          (\<forall>y<8. \<forall>x<8. (\<Sum>m\<leftarrow>maps. m ! y ! x) = 1)"
proof -
  let ?images = "[replicate 8 (replicate 8 [10, 20, 30 :: 8 word]),
                  replicate 8 (replicate 8 [200, 210, 220])]"
  have ne: "?images \<noteq> []" by simp
  have sh: "\<forall>img\<in>set ?images. has_shape3 8 8 3 img"
    by (simp add: has_shape3_def list_all_iff)
  show ?thesis
    using weights_sum_to_one[OF cv2_plain_contract ne sh, of default_engine]
    by (auto simp: default_engine_def)
qed

text \<open>
  The theorem of claim C4 at a 4 by 4 image and depth 2.
\<close>

theorem laplacian_roundtrip_witness:
  "reconstruct cv2_plain
     (laplacian_pyramid cv2_plain (replicate 4 (replicate 4 [0.1, 0.5, 0.9])) 2)
   = Inr (replicate 4 (replicate 4 [0.1, 0.5, 0.9]))"
proof -
  have sh: "has_shape3 4 4 3 (replicate 4 (replicate 4 [0.1, 0.5, 0.9 :: real]))"
    by (simp add: has_shape3_def list_all_iff)
  show ?thesis
    using laplacian_roundtrip[OF cv2_plain_contract sh, of 2] by simp
qed

text \<open>
  Claim C6, as amended. For a bracket of non-empty 3-channel byte images that do not all
  have one shape, \<open>fuse\<close> does not return: the sum of the weight maps raises ValueError.
  \<open>fuse\<close> returns \<open>None\<close> for the empty bracket only.
\<close>

theorem mixed_shapes_raise:
  assumes "cv2_contract cv"
    and "\<forall>img\<in>set images. \<exists>h w. 0 < h \<and> 0 < w \<and> has_shape3 h w 3 img"
    and "\<not> (\<exists>h w. \<forall>img\<in>set images. has_shape3 h w 3 img)"
  shows "fuse cv eng images = Inl ValueError \<and>
         (\<forall>bracket. fuse cv eng bracket = Inr None \<longleftrightarrow> bracket = [])"
  using fuse_mixed_shapes[OF assms] fuse_none_iff by blast

lemma shape_1_1: "has_shape3 1 1 3 [[[1, 2, 3 :: 8 word]]]"
  by (simp add: has_shape3_def)

lemma shape_1_2: "has_shape3 1 2 3 [[[1, 2, 3 :: 8 word], [4, 5, 6]]]"
  by (simp add: has_shape3_def)

lemma mixed_pair:
  "(\<forall>img\<in>set [[[[1, 2, 3 :: 8 word]]], [[[1, 2, 3], [4, 5, 6]]]].
       \<exists>h w. 0 < h \<and> 0 < w \<and> has_shape3 h w 3 img) \<and>
   \<not> (\<exists>h w. \<forall>img\<in>set [[[[1, 2, 3 :: 8 word]]], [[[1, 2, 3], [4, 5, 6]]]].
       has_shape3 h w 3 img)"
proof -
  have "\<exists>h w. 0 < h \<and> 0 < w \<and> has_shape3 h w 3 [[[1, 2, 3 :: 8 word]]]"
    using shape_1_1 by (intro exI[of _ 1]) simp
  moreover have "\<exists>h w. 0 < h \<and> 0 < w \<and> has_shape3 h w 3 [[[1, 2, 3 :: 8 word], [4, 5, 6]]]"
    using shape_1_2 by (intro exI[of _ 1] exI[of _ 2]) simp
  moreover have "\<not> (\<exists>h w. has_shape3 h w 3 [[[1, 2, 3 :: 8 word]]] \<and>
                        has_shape3 h w 3 [[[1, 2, 3 :: 8 word], [4, 5, 6]]])"
    by (auto simp: has_shape3_def)
  ultimately show ?thesis by simp
qed

text \<open>
  The theorem at a bracket of a 1 by 1 and a 1 by 2 image.
\<close>

theorem mixed_shapes_raise_witness:
  "fuse cv2_plain default_engine [[[[1, 2, 3]]], [[[1, 2, 3], [4, 5, 6]]]] = Inl ValueError \<and>
   fuse cv2_plain default_engine [] = Inr None"
  using mixed_shapes_raise[OF cv2_plain_contract conjunct1[OF mixed_pair]
      conjunct2[OF mixed_pair], of default_engine]
  by simp

text \<open>
  Claim C6 as stated fails: for the bracket of a 1 by 1 and a 1 by 2 image the result of
  \<open>fuse\<close> is not the absent result \<open>None\<close> but the exception.
\<close>

theorem mixed_shapes_raise_counterexample:
  "fuse cv2_plain default_engine [[[[1, 2, 3]]], [[[1, 2, 3], [4, 5, 6]]]] \<noteq> Inr None \<and>
   fuse cv2_plain default_engine [[[[1, 2, 3]]], [[[1, 2, 3], [4, 5, 6]]]] = Inl ValueError"
  using fuse_mixed_shapes[OF cv2_plain_contract conjunct1[OF mixed_pair]
      conjunct2[OF mixed_pair], of default_engine]
  by simp

subsection \<open>A bracket of one image\<close>

lemma shape2_constI:
  assumes "has_shape2 h w a" and "\<And>i j. i < h \<Longrightarrow> j < w \<Longrightarrow> a ! i ! j = v"
  shows "a = replicate h (replicate w v)"
proof (rule nth_equalityI)
  show "length a = length (replicate h (replicate w v))"
    using assms(1) by (simp add: has_shape2_nth)
next
  fix i assume "i < length a"
  then have i: "i < h" using assms(1) by (simp add: has_shape2_nth)
  have "a ! i = replicate w v"
  proof (rule nth_equalityI)
    show "length (a ! i) = length (replicate w v)"
      using assms(1) i by (simp add: has_shape2_nth)
  next
    fix j assume "j < length (a ! i)"
    then have "j < w" using assms(1) i by (simp add: has_shape2_nth)
    then show "a ! i ! j = replicate w v ! j" using assms(2) i by simp
  qed
  then show "a ! i = replicate h (replicate w v) ! i" using i by simp
qed

lemma single_weight_map:
  assumes "cv2_contract cv" and "has_shape3 h w 3 img"
  shows "generate_weight_maps cv eng [img] = Inr [replicate h (replicate w 1)]"
proof -
  let ?W = "weight_of cv eng img"
  have s: "has_shape2 h w ?W" using assms by (rule weight_of_shape)
  have "ew2 (/) ?W ?W = replicate h (replicate w 1)"
  proof (rule shape2_constI)
    show "has_shape2 h w (ew2 (/) ?W ?W)" using s s by (rule ew2_shape)
  next
    fix i j assume ij: "i < h" "j < w"
    have "0 < ?W ! i ! j" using assms ij by (rule weight_of_pos)
    then show "ew2 (/) ?W ?W ! i ! j = 1"
      using ij by (simp add: ew2_nth[OF s s])
  qed
  then show ?thesis
    by (simp add: generate_weight_maps_def np_sum_axis0_def Let_def)
qed

lemma ones_pyramid:
  assumes ones: "\<forall>h w. 0 < h \<and> 0 < w \<longrightarrow>
      pyrDown_g cv (replicate h (replicate w 1)) = replicate (halve h) (replicate (halve w) 1)"
    and pos: "0 < h" "0 < w"
  shows "(pyrDown_g cv ^^ k) (replicate h (replicate w 1)) =
           replicate ((halve ^^ k) h) (replicate ((halve ^^ k) w) 1)"
proof (induction k)
  case 0
  then show ?case by simp
next
  case (Suc k)
  have "0 < (halve ^^ k) h" "0 < (halve ^^ k) w"
    using pos by (simp_all add: halve_pow_pos)
  then show ?case using Suc ones by simp
qed

lemma times_ones:
  fixes X :: fimg
  assumes "has_shape3 a b 3 X"
  shows "ew3 (*) (gray2bgr (replicate a (replicate b 1))) X = X"
proof (rule shape3_eqI[of a b 3])
  have g: "has_shape3 a b 3 (gray2bgr (replicate a (replicate b (1::real))))"
    by (simp add: has_shape3_nth gray2bgr_def)
  show "has_shape3 a b 3 (ew3 (*) (gray2bgr (replicate a (replicate b 1))) X)"
    using g assms by (rule ew3_shape)
  show "has_shape3 a b 3 X" by fact
  fix i j k assume ijk: "i < a" "j < b" "k < (3::nat)"
  have "gray2bgr (replicate a (replicate b (1::real))) ! i ! j = [1, 1, 1]"
    using ijk by (simp add: gray2bgr_def)
  moreover have "[1, 1, 1 :: real] ! k = 1"
    using ijk(3) by (cases k) (auto simp: less_Suc_eq numeral_3_eq_3 nth_Cons')
  ultimately show "ew3 (*) (gray2bgr (replicate a (replicate b 1))) X ! i ! j ! k = X ! i ! j ! k"
    using ijk by (simp add: ew3_nth[OF g assms])
qed

lemma zeros_plus:
  fixes X :: fimg
  assumes "has_shape3 a b c Y" and "has_shape3 a b c X"
  shows "ew3 (+) (zeros_like Y) X = X"
proof (rule shape3_eqI[of a b c])
  have z: "has_shape3 a b c (zeros_like Y)"
    using assms(1) by (simp add: zeros_like_def map3_shape3)
  show "has_shape3 a b c (ew3 (+) (zeros_like Y) X)"
    using z assms(2) by (rule ew3_shape)
  show "has_shape3 a b c X" by fact
  fix i j k assume ijk: "i < a" "j < b" "k < c"
  have "zeros_like Y ! i ! j ! k = 0"
    using assms(1) ijk by (simp add: zeros_like_def has_shape3_nth)
  then show "ew3 (+) (zeros_like Y) X ! i ! j ! k = X ! i ! j ! k"
    using ijk by (simp add: ew3_nth[OF z assms(2)])
qed

lemma fold_update_all:
  "m \<le> length xs \<Longrightarrow>
   fold (\<lambda>i pf. pf[i := g i (pf ! i)]) [0..<m] xs =
     map (\<lambda>i. if i < m then g i (xs ! i) else xs ! i) [0..<length xs]"
proof (induction m)
  case 0
  then show ?case by (simp add: map_nth)
next
  case (Suc m)
  let ?ys = "map (\<lambda>i. if i < m then g i (xs ! i) else xs ! i) [0..<length xs]"
  have m: "m < length xs" using Suc.prems by simp
  have "fold (\<lambda>i pf. pf[i := g i (pf ! i)]) [0..<Suc m] xs = ?ys[m := g m (?ys ! m)]"
    using Suc by simp
  also have "\<dots> = map (\<lambda>i. if i < Suc m then g i (xs ! i) else xs ! i) [0..<length xs]"
    using m by (intro nth_equalityI) (auto simp: nth_list_update less_Suc_eq)
  finally show ?case .
qed

lemma to_byte_to_unit: "to_byte (to_unit b) = b"
proof -
  define n where "n = unat b"
  have "n < 2 ^ LENGTH(8)" unfolding n_def by (rule unsigned_less)
  then have le: "n \<le> 255" by simp
  have u: "to_unit b = real n / 255"
    by (simp only: to_unit_def n_def)
  have "min 1 (max 0 (real n / 255)) = real n / 255"
    using le by (simp add: min_def max_def)
  then have "\<lfloor>min 1 (max 0 (real n / 255)) * 255\<rfloor> = int n"
    by simp
  then have "to_byte (to_unit b) = word_of_int (int n)"
    by (simp only: to_byte_def u)
  also have "\<dots> = b"
    by (simp add: n_def)
  finally show ?thesis .
qed

lemma to_uint8_to_unit: "to_uint8 (map (map (map to_unit)) img) = img"
  by (simp add: to_uint8_def o_def to_byte_to_unit map_idI)

lemma reconstruct_laplacian:
  assumes "cv2_contract cv" and "has_shape3 h w c img" and "0 < h" and "0 < w"
  shows "reconstruct cv (laplacian_pyramid cv img levels) = Inr img"
  using collapse_levels[OF assms, of "nat (levels - 1)"]
  by (simp add: reconstruct_def laplacian_pyramid_levels del: upt_Suc funpow.simps)

lemma accumulate_single:
  assumes cv: "cv2_contract cv"
    and ones: "\<forall>h w. 0 < h \<and> 0 < w \<longrightarrow>
      pyrDown_g cv (replicate h (replicate w 1)) = replicate (halve h) (replicate (halve w) 1)"
    and sh: "has_shape3 h w 3 img" and pos: "0 < h" "0 < w" and L: "1 \<le> L"
  shows "accumulate cv L img (replicate h (replicate w 1))
           (map zeros_like (gaussian_pyramid (pyrDown_u8 cv) img L)) =
         laplacian_pyramid cv (map (map (map to_unit)) img) L"
proof -
  define n where "n = nat (L - 1)"
  have nL: "nat L = Suc n" using L by (simp add: n_def)
  let ?zero = "map zeros_like (gaussian_pyramid (pyrDown_u8 cv) img L)"
  let ?pi = "laplacian_pyramid cv (map (map (map to_unit)) img) L"
  let ?pw = "gaussian_pyramid (pyrDown_g cv) (replicate h (replicate w 1)) L"
  let ?g = "\<lambda>level x. ew3 (+) x (ew3 (*) (gray2bgr (?pw ! level)) (?pi ! level))"
  have lz: "length ?zero = Suc n"
    by (simp add: gaussian_pyramid_length n_def)
  have lp: "length ?pi = Suc n"
    by (simp add: laplacian_pyramid_length n_def)
  have fl: "has_shape3 h w 3 (map (map (map to_unit)) img)"
    using sh by (rule map3_shape3)
  have pis: "pyramid_shape h w 3 ?pi"
    using cv fl pos by (rule laplacian_pyramid_shape)
  have level: "?g k (?zero ! k) = ?pi ! k" if k: "k \<le> n" for k
  proof -
    have p: "has_shape3 ((halve ^^ k) h) ((halve ^^ k) w) 3 (?pi ! k)"
      using pis k lp by (simp add: pyramid_shape_def)
    have w1: "?pw ! k = replicate ((halve ^^ k) h) (replicate ((halve ^^ k) w) 1)"
      using k ones_pyramid[OF ones pos, of k] by (simp add: gaussian_pyramid_nth n_def)
    have z: "?zero ! k = zeros_like ((pyrDown_u8 cv ^^ k) img)"
      using k by (simp add: gaussian_pyramid_length gaussian_pyramid_nth n_def)
    have y: "has_shape3 ((halve ^^ k) h) ((halve ^^ k) w) 3 ((pyrDown_u8 cv ^^ k) img)"
      using cv sh pos by (rule pyrDown_u8_pow_shape)
    show ?thesis
      unfolding w1 z times_ones[OF p] by (rule zeros_plus[OF y p])
  qed
  have "accumulate cv L img (replicate h (replicate w 1)) ?zero =
          fold (\<lambda>level pf. pf[level := ?g level (pf ! level)]) [0..<Suc n] ?zero"
    by (simp add: accumulate_def Let_def nL del: upt_Suc)
  also have "\<dots> = map (\<lambda>i. if i < Suc n then ?g i (?zero ! i) else ?zero ! i) [0..<length ?zero]"
    by (rule fold_update_all) (simp add: gaussian_pyramid_length n_def)
  also have "\<dots> = ?pi"
  proof (rule nth_equalityI)
    show "length (map (\<lambda>i. if i < Suc n then ?g i (?zero ! i) else ?zero ! i) [0..<length ?zero])
            = length ?pi"
      using lz lp by simp
  next
    fix k
    assume "k < length (map (\<lambda>i. if i < Suc n then ?g i (?zero ! i) else ?zero ! i)
                          [0..<length ?zero])"
    then have k: "k < Suc n" using lz by simp
    then have "map (\<lambda>i. if i < Suc n then ?g i (?zero ! i) else ?zero ! i) [0..<length ?zero] ! k
                 = ?g k (?zero ! k)"
      unfolding lz by (subst nth_map_upt) auto
    then show "map (\<lambda>i. if i < Suc n then ?g i (?zero ! i) else ?zero ! i) [0..<length ?zero] ! k
                 = ?pi ! k"
      using level[of k] k by simp
  qed
  finally show ?thesis .
qed

text \<open>
  Where the depth is at least 1, that is for images whose sides are 8 or longer, the
  fusion of a bracket of one image is that image: its weight map is 1 everywhere, the
  blend is its own Laplacian pyramid, and the bytes come back from the reconstruction.
  This holds in the exact arithmetic of the model, for OpenCV functions that keep the
  shapes and whose \<open>pyrDown\<close> maps a constant map of ones to ones.
\<close>

theorem single_image_identity:
  assumes cv: "cv2_contract cv"
    and ones: "\<forall>h w. 0 < h \<and> 0 < w \<longrightarrow>
      pyrDown_g cv (replicate h (replicate w 1)) = replicate (halve h) (replicate (halve w) 1)"
    and sh: "has_shape3 h w 3 img" and big: "8 \<le> min h w"
    and eng: "0 \<le> wc eng" "0 \<le> ws eng" "0 \<le> we eng"
  shows "fuse cv eng [img] = Inr (Some img)"
proof -
  have pos: "0 < h" "0 < w" using big by simp_all
  have g: "generate_weight_maps cv eng [img] = Inr [replicate h (replicate w 1)]"
    using cv sh by (rule single_weight_map)
  have dims: "height img = h" "width img = w"
    using dstsize_shape3[OF sh pos(1)] by (simp_all add: dstsize_def)
  have "(2::nat) ^ 3 \<le> min h w" using big by simp
  then have "Suc 3 \<le> floorlog 2 (min h w)"
    by (intro floorlog_ge_SucI) simp_all
  then obtain L where nl: "num_levels_of (min h w) = Inr L" and L: "1 \<le> L"
    using pos by (simp add: num_levels_of_def)
  have acc: "accumulate cv L img (replicate h (replicate w 1))
               (map zeros_like (gaussian_pyramid (pyrDown_u8 cv) img L)) =
             laplacian_pyramid cv (map (map (map to_unit)) img) L"
    using cv ones sh pos L by (rule accumulate_single)
  have fl: "has_shape3 h w 3 (map (map (map to_unit)) img)"
    using sh by (rule map3_shape3)
  have rec: "reconstruct cv (laplacian_pyramid cv (map (map (map to_unit)) img) L) =
               Inr (map (map (map to_unit)) img)"
    using cv fl pos by (rule reconstruct_laplacian)
  show ?thesis
    by (simp add: fuse_def g dims nl acc rec to_uint8_to_unit)
qed

lemma evens_replicate: "evens (replicate n x) = replicate (halve n) x"
proof (induction n rule: less_induct)
  case (less n)
  show ?case
  proof (cases n)
    case 0
    then show ?thesis by (simp add: halve_def)
  next
    case (Suc m)
    show ?thesis
    proof (cases m)
      case 0
      then show ?thesis using Suc by (simp add: halve_def)
    next
      case (Suc k)
      have "evens (replicate k x) = replicate (halve k) x"
        using less \<open>n = Suc m\<close> Suc by simp
      then show ?thesis
        using \<open>n = Suc m\<close> Suc by (simp add: halve_def)
    qed
  qed
qed

lemma decimate_ones:
  "decimate (replicate h (replicate w x)) = replicate (halve h) (replicate (halve w) x)"
  by (simp add: decimate_def evens_replicate)

text \<open>The theorem at an 8 by 8 image.\<close>

theorem single_image_identity_witness:
  "fuse cv2_plain default_engine [replicate 8 (replicate 8 [10, 20, 30])] =
     Inr (Some (replicate 8 (replicate 8 [10, 20, 30])))"
proof -
  have ones: "\<forall>h w. 0 < h \<and> 0 < w \<longrightarrow>
      pyrDown_g cv2_plain (replicate h (replicate w 1)) =
        replicate (halve h) (replicate (halve w) 1)"
    by (simp add: cv2_plain_def decimate_ones)
  have sh: "has_shape3 8 8 3 (replicate 8 (replicate 8 [10, 20, 30 :: 8 word]))"
    by (simp add: has_shape3_def list_all_iff)
  have big: "8 \<le> min (8::nat) 8" by simp
  show ?thesis
    using single_image_identity[OF cv2_plain_contract ones sh big, of default_engine]
    by (simp add: default_engine_def)
qed

end
